theory Spec2Isabelle
  imports Main "HOL-Library.Word" "HOL-Library.Sublist"
begin

unbundle bit_operations_syntax

section \<open>The file system the module runs against\<close>

text \<open>
  \<^verbatim>\<open>autostarter/systems/linux.py\<close> is a thin layer over the host file system:
  every function of the module resolves a directory, builds a path by string
  interpolation and calls \<^verbatim>\<open>os.path.exists\<close>, \<^verbatim>\<open>os.makedirs\<close>, \<^verbatim>\<open>open\<close>,
  \<^verbatim>\<open>os.chmod\<close> or (through \<^verbatim>\<open>remove_list\<close>) \<^verbatim>\<open>os.remove\<close>.  The file system
  is therefore the state of the model.

  A file system maps canonical absolute paths (the list of names from the root)
  to nodes.  The root is always a directory.  A regular file carries its text
  and its permission bits; directories carry nothing.  Symbolic links, hard
  links and the encoding of Python's
  \<^verbatim>\<open>str\<close> into bytes are not modelled: a string is a byte string.
\<close>

type_synonym path = "string list"

datatype node = File (content: string) (perm: "32 word") | Dir

type_synonym filesystem = "path \<Rightarrow> node option"

text \<open>
  What the process sees of its surroundings.  \<open>home\<close> is what
  \<^verbatim>\<open>posixpath.expanduser\<close> finds for the current user (\<^verbatim>\<open>$HOME\<close>, else the
  password database entry of the uid), \<open>passwd\<close> the home directories of
  named users, \<open>cwd\<close> the directory relative paths start from.  Access
  control is abstracted by three predicates on canonical paths:
  \<open>searchable\<close> (the process may look names up in the directory),
  \<open>writable\<close> (the process may write the file, or add and delete entries of
  the directory) and \<open>owned\<close> (the process may change the mode of the node).
\<close>

record env =
  home :: "string option"
  passwd :: "string \<Rightarrow> string option"
  cwd :: path
  umask :: "32 word"
  searchable :: "path \<Rightarrow> bool"
  writable :: "path \<Rightarrow> bool"
  owned :: "path \<Rightarrow> bool"

text \<open>The exceptions of Python that the operating-system calls below raise.\<close>

datatype error =
    FileNotFoundError
  | NotADirectoryError
  | IsADirectoryError
  | FileExistsError
  | PermissionError
  | ValueError

text \<open>
  A Python call is a function from the file system to an outcome (an exception
  or a value) and the file system it leaves behind: an exception keeps whatever
  was written before it was raised.
\<close>

type_synonym 'a io = "filesystem \<Rightarrow> (error + 'a) \<times> filesystem"

definition return_io :: "'a \<Rightarrow> 'a io" where
  "return_io x fs = (Inr x, fs)"

definition bind_io :: "'a io \<Rightarrow> ('a \<Rightarrow> 'b io) \<Rightarrow> 'b io" where
  "bind_io m f fs = (case m fs of (Inl err, fs') \<Rightarrow> (Inl err, fs') | (Inr x, fs') \<Rightarrow> f x fs')"

subsection \<open>Path resolution\<close>

text \<open>The names of a path string: the pieces between the \<^verbatim>\<open>/\<close> characters.\<close>

fun split_path :: "string \<Rightarrow> string list" where
  "split_path [] = [[]]"
| "split_path (c # cs) =
     (if c = CHR ''/'' then [] # split_path cs
      else (case split_path cs of
              [] \<Rightarrow> [[c]]
            | w # ws \<Rightarrow> (c # w) # ws))"

definition node_at :: "filesystem \<Rightarrow> path \<Rightarrow> node option" where
  "node_at fs p = (if p = [] then Some Dir else fs p)"

text \<open>One name of a path, taken from the directory \<open>cur\<close>.\<close>

definition step :: "path \<Rightarrow> string \<Rightarrow> path" where
  "step cur c =
     (if c = [] \<or> c = ''.'' then cur
      else if c = ''..'' then butlast cur
      else cur @ [c])"

text \<open>
  Walking the names of a path: every name is looked up in a directory that must
  exist and that the process must be allowed to search (\<^verbatim>\<open>EACCES\<close> otherwise).
  The path reached by the last name need not exist.
\<close>

fun walk :: "env \<Rightarrow> filesystem \<Rightarrow> path \<Rightarrow> string list \<Rightarrow> error + path" where
  "walk e fs cur [] = Inr cur"
| "walk e fs cur (c # cs) =
     (case node_at fs cur of
        None \<Rightarrow> Inl FileNotFoundError
      | Some (File t m) \<Rightarrow> Inl NotADirectoryError
      | Some Dir \<Rightarrow>
          if searchable e cur then walk e fs (step cur c) cs
          else Inl PermissionError)"

definition start_of :: "env \<Rightarrow> string \<Rightarrow> path" where
  "start_of e p = (if p \<noteq> [] \<and> hd p = CHR ''/'' then [] else cwd e)"

text \<open>
  The canonical path a path string names.  Python refuses a string with an
  embedded NUL before any system call (\<^verbatim>\<open>ValueError\<close>); the empty path names
  nothing.
\<close>

definition resolve :: "env \<Rightarrow> filesystem \<Rightarrow> string \<Rightarrow> error + path" where
  "resolve e fs p =
     (if CHR 0x00 \<in> set p then Inl ValueError
      else if p = [] then Inl FileNotFoundError
      else walk e fs (start_of e p) (split_path p))"

subsection \<open>The library calls the module makes\<close>

text \<open>
  \<^verbatim>\<open>os.stat(p)\<close>: the node a path names.  It is \<^verbatim>\<open>PermissionError\<close> when a
  directory on the way may not be searched.
\<close>

definition os_stat :: "env \<Rightarrow> string \<Rightarrow> node io" where
  "os_stat e p fs =
     (case resolve e fs p of
        Inl err \<Rightarrow> (Inl err, fs)
      | Inr q \<Rightarrow>
          (case node_at fs q of
             None \<Rightarrow> (Inl FileNotFoundError, fs)
           | Some n \<Rightarrow> (Inr n, fs)))"

text \<open>
  \<^verbatim>\<open>os.path.exists(p)\<close> is \<^verbatim>\<open>os.stat(p)\<close> with \<^verbatim>\<open>OSError\<close> and \<^verbatim>\<open>ValueError\<close>
  caught and turned into \<^verbatim>\<open>False\<close>: a file that exists but may not be
  looked up is reported as absent.
\<close>

definition path_exists :: "env \<Rightarrow> string \<Rightarrow> bool io" where
  "path_exists e p fs =
     (case os_stat e p fs of
        (Inl err, fs') \<Rightarrow> (Inr False, fs')
      | (Inr n, fs') \<Rightarrow> (Inr True, fs'))"

text \<open>
  \<^verbatim>\<open>os.makedirs(p, exist_ok=True)\<close>: the library function recurses over
  \<^verbatim>\<open>os.path.split\<close> and calls \<^verbatim>\<open>mkdir\<close> for every level that does not exist;
  here that is one walk over the names of the path, in which a directory that
  is missing is created in its parent (which must be writable), and every
  directory that is entered must be searchable.  A regular
  file in the way is \<^verbatim>\<open>NotADirectoryError\<close>, a regular file at the end is
  \<^verbatim>\<open>FileExistsError\<close> (\<^verbatim>\<open>exist_ok\<close> forgives an existing directory only).
  Directories created before an error stay.
\<close>

fun mkdirs_from :: "env \<Rightarrow> path \<Rightarrow> string list \<Rightarrow> unit io" where
  "mkdirs_from e cur [] fs =
     (case node_at fs cur of
        Some Dir \<Rightarrow> (Inr (), fs)
      | Some (File t m) \<Rightarrow> (Inl FileExistsError, fs)
      | None \<Rightarrow>
          if writable e (butlast cur) then (Inr (), fs(cur \<mapsto> Dir))
          else (Inl PermissionError, fs))"
| "mkdirs_from e cur (c # cs) fs =
     (case node_at fs cur of
        Some Dir \<Rightarrow>
          if searchable e cur then mkdirs_from e (step cur c) cs fs
          else (Inl PermissionError, fs)
      | Some (File t m) \<Rightarrow> (Inl NotADirectoryError, fs)
      | None \<Rightarrow>
          if writable e (butlast cur)
          then if searchable e cur then mkdirs_from e (step cur c) cs (fs(cur \<mapsto> Dir))
               else (Inl PermissionError, fs(cur \<mapsto> Dir))
          else (Inl PermissionError, fs))"

definition makedirs :: "env \<Rightarrow> string \<Rightarrow> unit io" where
  "makedirs e p fs =
     (if CHR 0x00 \<in> set p then (Inl ValueError, fs)
      else if p = [] then (Inl FileNotFoundError, fs)
      else mkdirs_from e (start_of e p) (split_path p) fs)"

text \<open>
  \<^verbatim>\<open>open(p, 'w')\<close>: an existing regular file is truncated and keeps its mode, a
  missing one is created in its directory with mode \<^verbatim>\<open>0o666 & ~umask\<close>
  (\<open>438\<close> is \<^verbatim>\<open>0o666\<close>).  The value is the open file, named by its canonical
  path.
\<close>

definition open_w :: "env \<Rightarrow> string \<Rightarrow> path io" where
  "open_w e p fs =
     (case resolve e fs p of
        Inl err \<Rightarrow> (Inl err, fs)
      | Inr q \<Rightarrow>
          (case node_at fs q of
             Some Dir \<Rightarrow> (Inl IsADirectoryError, fs)
           | Some (File t m) \<Rightarrow>
               if writable e q then (Inr q, fs(q \<mapsto> File [] m))
               else (Inl PermissionError, fs)
           | None \<Rightarrow>
               if writable e (butlast q)
               then (Inr q, fs(q \<mapsto> File [] (438 AND NOT (umask e))))
               else (Inl PermissionError, fs)))"

text \<open>
  \<^verbatim>\<open>f.write(s)\<close> followed by the close of the \<^verbatim>\<open>with\<close> block: the text is
  appended to what the open file holds.
\<close>

definition file_write :: "path \<Rightarrow> string \<Rightarrow> unit io" where
  "file_write f s fs =
     (case fs f of
        Some (File t m) \<Rightarrow> (Inr (), fs(f \<mapsto> File (t @ s) m))
      | Some Dir \<Rightarrow> (Inr (), fs)
      | None \<Rightarrow> (Inr (), fs))"

text \<open>\<^verbatim>\<open>os.chmod(p, mode)\<close>.\<close>

definition os_chmod :: "env \<Rightarrow> string \<Rightarrow> 32 word \<Rightarrow> unit io" where
  "os_chmod e p mode fs =
     (case resolve e fs p of
        Inl err \<Rightarrow> (Inl err, fs)
      | Inr q \<Rightarrow>
          (case node_at fs q of
             None \<Rightarrow> (Inl FileNotFoundError, fs)
           | Some Dir \<Rightarrow>
               if owned e q then (Inr (), fs) else (Inl PermissionError, fs)
           | Some (File t m) \<Rightarrow>
               if owned e q then (Inr (), fs(q \<mapsto> File t mode))
               else (Inl PermissionError, fs)))"

text \<open>\<^verbatim>\<open>os.remove(p)\<close>: unlink a regular file from its directory.\<close>

definition os_remove :: "env \<Rightarrow> string \<Rightarrow> unit io" where
  "os_remove e p fs =
     (case resolve e fs p of
        Inl err \<Rightarrow> (Inl err, fs)
      | Inr q \<Rightarrow>
          (case node_at fs q of
             None \<Rightarrow> (Inl FileNotFoundError, fs)
           | Some Dir \<Rightarrow> (Inl IsADirectoryError, fs)
           | Some (File t m) \<Rightarrow>
               if writable e (butlast q) then (Inr (), fs(q := None))
               else (Inl PermissionError, fs)))"

text \<open>
  \<^verbatim>\<open>posixpath.expanduser(p)\<close>: a leading \<^verbatim>\<open>~\<close> or \<^verbatim>\<open>~user\<close> is replaced by
  that user's home directory without its trailing slashes; the path is
  returned as it is when it has no leading tilde or the home directory is not
  known.
\<close>

definition rstrip_slash :: "string \<Rightarrow> string" where
  "rstrip_slash s = rev (dropWhile (\<lambda>c. c = CHR ''/'') (rev s))"

definition expanduser :: "env \<Rightarrow> string \<Rightarrow> string io" where
  "expanduser e p =
     (if p = [] \<or> hd p \<noteq> CHR ''~'' then return_io p
      else
        let name = takeWhile (\<lambda>c. c \<noteq> CHR ''/'') (tl p);
            rest = dropWhile (\<lambda>c. c \<noteq> CHR ''/'') (tl p)
        in case (if name = [] then home e else passwd e name) of
             None \<Rightarrow> return_io p
           | Some userhome \<Rightarrow>
               let r = rstrip_slash userhome @ rest
               in return_io (if r = [] then ''/'' else r))"

section \<open>The module\<close>

text \<open>
  \<^verbatim>\<open>_startup_folder(system_wide)\<close> (a name cannot start with an underscore
  here):
  \<^verbatim>\<open>if system_wide: return '/etc/init.d'\<close>, else
  \<^verbatim>\<open>return os.path.expanduser('~/.config/autostart')\<close>.
\<close>

definition startup_folder :: "env \<Rightarrow> bool \<Rightarrow> string io" where
  "startup_folder e system_wide =
     (if system_wide then return_io ''/etc/init.d''
      else expanduser e ''~/.config/autostart'')"

text \<open>
  \<^verbatim>\<open>check(identifier, system_wide)\<close>:  the f-string
  \<^verbatim>\<open>f'{_startup_folder(system_wide)}/{identifier}.desktop'\<close> is tested with
  \<^verbatim>\<open>os.path.exists\<close>.
\<close>

definition check :: "env \<Rightarrow> string \<Rightarrow> bool \<Rightarrow> bool io" where
  "check e identifier system_wide =
     bind_io (startup_folder e system_wide) (\<lambda>d.
       let start_desktop = d @ ''/'' @ identifier @ ''.desktop'' in
       bind_io (path_exists e start_desktop) (\<lambda>b.
         if b then return_io True else return_io False))"

text \<open>The two texts \<^verbatim>\<open>add\<close> writes, as its f-strings build them.\<close>

definition launcher_text :: "string \<Rightarrow> string \<Rightarrow> string \<Rightarrow> string" where
  "launcher_text interpreter script_location arguments =
     ''#!/bin/bash\<newline>\<newline>'' @ interpreter @ '' '' @ script_location @ '' '' @ arguments
       @ ''\<newline>''"

definition desktop_text :: "string \<Rightarrow> string \<Rightarrow> string" where
  "desktop_text identifier start_file =
     ''[Desktop Entry]\<newline>Type=Application\<newline>Name='' @ identifier
       @ ''\<newline>Exec='' @ start_file @ ''.sh\<newline>''"

text \<open>
  \<^verbatim>\<open>add(identifier, script_location, interpreter, system_wide, arguments)\<close>:
  make the directory, write and close the launcher, \<^verbatim>\<open>chmod\<close> it to
  \<^verbatim>\<open>0o755\<close> (\<open>493\<close>), write and close the descriptor.  The function returns
  \<^verbatim>\<open>None\<close>.
\<close>

definition add :: "env \<Rightarrow> string \<Rightarrow> string \<Rightarrow> string \<Rightarrow> bool \<Rightarrow> string \<Rightarrow> unit io" where
  "add e identifier script_location interpreter system_wide arguments =
     bind_io (startup_folder e system_wide) (\<lambda>start_dir.
     bind_io (makedirs e start_dir) (\<lambda>u.
       let start_file = start_dir @ ''/'' @ identifier in
       bind_io (open_w e (start_file @ ''.sh'')) (\<lambda>f.
       bind_io (file_write f (launcher_text interpreter script_location arguments)) (\<lambda>u.
       bind_io (os_chmod e (start_file @ ''.sh'') 493) (\<lambda>u.
       bind_io (open_w e (start_file @ ''.desktop'')) (\<lambda>g.
       file_write g (desktop_text identifier start_file)))))))"

text \<open>
  Modelled from the spec: \<^verbatim>\<open>autostarter.util.remove_list\<close>, the helper that
  \<^verbatim>\<open>linux.py\<close> imports from \<^verbatim>\<open>autostarter/util.py\<close>; the source of that
  module is missing.  The specification says of the removal: every targeted
  path is attempted; a path that does not exist is "nothing to remove" and no
  error; the result is true when every deletion succeeded or found nothing to
  delete; a file-system error of a deletion (permission denied) propagates.
  Whether a path exists is asked as \<^verbatim>\<open>check\<close> asks it, with
  \<^verbatim>\<open>os.path.exists\<close>.
\<close>

fun remove_list :: "env \<Rightarrow> string list \<Rightarrow> bool io" where
  "remove_list e [] = return_io True"
| "remove_list e (p # ps) =
     bind_io (path_exists e p) (\<lambda>b.
       if b then bind_io (os_remove e p) (\<lambda>u. remove_list e ps)
       else remove_list e ps)"

text \<open>
  \<^verbatim>\<open>remove(identifier, system_wide)\<close>: the list of the two paths, each built
  with a call of \<^verbatim>\<open>_startup_folder\<close> of its own, is handed to
  \<^verbatim>\<open>remove_list\<close>.
\<close>

definition remove :: "env \<Rightarrow> string \<Rightarrow> bool \<Rightarrow> bool io" where
  "remove e identifier system_wide =
     bind_io (startup_folder e system_wide) (\<lambda>d1.
     bind_io (startup_folder e system_wide) (\<lambda>d2.
       remove_list e [d1 @ ''/'' @ identifier @ ''.sh'', d2 @ ''/'' @ identifier @ ''.desktop'']))"

section \<open>Notions the properties are stated with\<close>

text \<open>
  The directory \<^verbatim>\<open>_startup_folder\<close> returns, in closed form (lemma
  \<open>startup_folder_eq\<close> below shows that it is what the function computes).
\<close>

definition startup_dir :: "env \<Rightarrow> bool \<Rightarrow> string" where
  "startup_dir e system_wide =
     (if system_wide then ''/etc/init.d''
      else case home e of
             None \<Rightarrow> ''~/.config/autostart''
           | Some h \<Rightarrow> rstrip_slash h @ ''/.config/autostart'')"

text \<open>
  What \<^verbatim>\<open>os.path.exists\<close> answers: the path string resolves for the process
  and names a node of the file system (a file or a directory).
\<close>

definition present :: "env \<Rightarrow> filesystem \<Rightarrow> string \<Rightarrow> bool" where
  "present e fs p =
     (case resolve e fs p of Inl err \<Rightarrow> False | Inr q \<Rightarrow> node_at fs q \<noteq> None)"

text \<open>
  The same question asked of the file system alone: the path names a node,
  whatever the process is allowed to search.
\<close>

definition unrestricted :: "env \<Rightarrow> env" where
  "unrestricted e = e\<lparr>searchable := \<lambda>q. True\<rparr>"

definition on_disk :: "env \<Rightarrow> filesystem \<Rightarrow> string \<Rightarrow> bool" where
  "on_disk e fs p = present (unrestricted e) fs p"

text \<open>
  The path \<^verbatim>\<open>f'{d}/{i}'\<close> splits into the names that lead to the directory of
  the entry and the last name, the stem of the two file names.
\<close>

definition entry_parent :: "string \<Rightarrow> string \<Rightarrow> string list" where
  "entry_parent d i = butlast (split_path (d @ CHR ''/'' # i))"

definition entry_stem :: "string \<Rightarrow> string \<Rightarrow> string" where
  "entry_stem d i = last (split_path (d @ CHR ''/'' # i))"

text \<open>The directory of the entry exists, at the canonical path \<open>par\<close>.\<close>

definition located :: "env \<Rightarrow> filesystem \<Rightarrow> string \<Rightarrow> string \<Rightarrow> path \<Rightarrow> bool" where
  "located e fs d i par \<longleftrightarrow>
     CHR 0x00 \<notin> set d \<and> CHR 0x00 \<notin> set i \<and>
     walk e fs (start_of e (d @ ''/'')) (entry_parent d i) = Inr par \<and>
     node_at fs par = Some Dir \<and> searchable e par"

text \<open>The mode a file has after \<^verbatim>\<open>open(p, 'w')\<close>: its own, or that of a new file.\<close>

definition mode_kept :: "env \<Rightarrow> filesystem \<Rightarrow> path \<Rightarrow> 32 word" where
  "mode_kept e fs q =
     (case fs q of
        Some (File t m) \<Rightarrow> m
      | Some Dir \<Rightarrow> 438 AND NOT (umask e)
      | None \<Rightarrow> 438 AND NOT (umask e))"

text \<open>
  The home directory as \<^verbatim>\<open>expanduser\<close> uses it: the per-user startup directory is
  this string followed by \<^verbatim>\<open>/.config/autostart\<close>.
\<close>

definition home_base :: "env \<Rightarrow> string" where
  "home_base e = (case home e of None \<Rightarrow> ''~'' | Some h \<Rightarrow> rstrip_slash h)"

text \<open>
  The canonical path a path string names when it resolves: the names are
  followed from the starting directory, \<^verbatim>\<open>.\<close> and the empty name stay and
  \<^verbatim>\<open>..\<close> goes up (lemma \<open>resolve_canonical\<close>).
\<close>

definition canonical :: "env \<Rightarrow> string \<Rightarrow> path" where
  "canonical e p = foldl step (start_of e p) (split_path p)"

subsection \<open>An example machine\<close>

text \<open>
  A user whose home directory is \<^verbatim>\<open>/home/u\<close>, with umask \<^verbatim>\<open>0o022\<close> (\<open>18\<close>) and
  no access restriction, on a file system that has \<^verbatim>\<open>/etc/init.d\<close> and the
  home directory but no \<^verbatim>\<open>~/.config\<close> yet; the same file system after
  \<^verbatim>\<open>add("build", "/opt/build.sh", "python3", False, "-v")\<close>, and after the
  \<^verbatim>\<open>remove("build")\<close> that follows.
\<close>

definition demo_env :: env where
  "demo_env = \<lparr>home = Some ''/home/u'', passwd = (\<lambda>n. None), cwd = [], umask = 18,
     searchable = (\<lambda>p. True), writable = (\<lambda>p. True), owned = (\<lambda>p. True)\<rparr>"

definition demo_fs :: filesystem where
  "demo_fs = Map.empty
     ([''etc''] \<mapsto> Dir, [''etc'', ''init.d''] \<mapsto> Dir,
      [''home''] \<mapsto> Dir, [''home'', ''u''] \<mapsto> Dir)"

definition demo_fs_added :: filesystem where
  "demo_fs_added = demo_fs
     ([''home'', ''u'', ''.config''] \<mapsto> Dir,
      [''home'', ''u'', ''.config'', ''autostart''] \<mapsto> Dir,
      [''home'', ''u'', ''.config'', ''autostart'', ''build.sh''] \<mapsto>
        File ''#!/bin/bash\<newline>\<newline>python3 /opt/build.sh -v\<newline>'' 493,
      [''home'', ''u'', ''.config'', ''autostart'', ''build.desktop''] \<mapsto>
        File ''[Desktop Entry]\<newline>Type=Application\<newline>Name=build\<newline>Exec=/home/u/.config/autostart/build.sh\<newline>'' 420)"

definition demo_fs_removed :: filesystem where
  "demo_fs_removed = demo_fs_added
     ([''home'', ''u'', ''.config'', ''autostart'', ''build.sh''] := None,
      [''home'', ''u'', ''.config'', ''autostart'', ''build.desktop''] := None)"

text \<open>
  The example after a second \<^verbatim>\<open>add("build", "/opt/other.sh", "bash", False, "-q")\<close>,
  and after a system-wide \<^verbatim>\<open>add("build", "/opt/build.sh", "python3", True, "-v")\<close>
  that follows the first per-user one.
\<close>

definition demo_fs_again :: filesystem where
  "demo_fs_again = demo_fs
     ([''home'', ''u'', ''.config''] \<mapsto> Dir,
      [''home'', ''u'', ''.config'', ''autostart''] \<mapsto> Dir,
      [''home'', ''u'', ''.config'', ''autostart'', ''build.sh''] \<mapsto>
        File ''#!/bin/bash\<newline>\<newline>bash /opt/other.sh -q\<newline>'' 493,
      [''home'', ''u'', ''.config'', ''autostart'', ''build.desktop''] \<mapsto>
        File ''[Desktop Entry]\<newline>Type=Application\<newline>Name=build\<newline>Exec=/home/u/.config/autostart/build.sh\<newline>'' 420)"

definition demo_fs_both :: filesystem where
  "demo_fs_both = demo_fs_added
     ([''etc'', ''init.d'', ''build.sh''] \<mapsto>
        File ''#!/bin/bash\<newline>\<newline>python3 /opt/build.sh -v\<newline>'' 493,
      [''etc'', ''init.d'', ''build.desktop''] \<mapsto>
        File ''[Desktop Entry]\<newline>Type=Application\<newline>Name=build\<newline>Exec=/etc/init.d/build.sh\<newline>'' 420)"

text \<open>
  Two variants of the example user: one who may not search
  \<^verbatim>\<open>~/.config/autostart\<close> (a directory with mode \<^verbatim>\<open>0o000\<close>, say), and one whose
  \<^verbatim>\<open>$HOME\<close> is \<^verbatim>\<open>/etc/init.d\<close>.
\<close>

definition demo_env_locked :: env where
  "demo_env_locked =
     demo_env\<lparr>searchable := \<lambda>q. q \<noteq> [''home'', ''u'', ''.config'', ''autostart'']\<rparr>"

definition demo_env_nested :: env where
  "demo_env_nested = demo_env\<lparr>home := Some ''/etc/init.d''\<rparr>"

section \<open>Scope resolution\<close>

lemma startup_folder_eq: "startup_folder e sw fs = (Inr (startup_dir e sw), fs)"
  by (simp add: startup_folder_def startup_dir_def expanduser_def return_io_def
      split: option.splits)

lemma path_exists_eq: "path_exists e p fs = (Inr (present e fs p), fs)"
  by (simp add: path_exists_def os_stat_def present_def split: sum.splits option.splits)

lemma check_eq:
  "check e i sw fs = (Inr (present e fs (startup_dir e sw @ ''/'' @ i @ ''.desktop'')), fs)"
  by (simp add: check_def bind_io_def startup_folder_eq path_exists_eq return_io_def)

text \<open>
  C9.  Scope resolution is pure and idempotent: for each value of the flag there
  is one path that the resolver returns from every file system, it raises
  nothing, it leaves the file system as it found it, and two calls in a row
  return that same path twice.
\<close>

theorem startup_folder_pure:
  "\<exists>d. (\<forall>fs. startup_folder e sw fs = (Inr d, fs)) \<and>
       (\<forall>fs. bind_io (startup_folder e sw) (\<lambda>d1.
               bind_io (startup_folder e sw) (\<lambda>d2. return_io (d1, d2))) fs
             = (Inr (d, d), fs))"
  by (rule exI [of _ "startup_dir e sw"]) (simp add: bind_io_def startup_folder_eq return_io_def)

section \<open>Paths\<close>

text \<open>
  Splitting at the separators distributes over the interpolation of the
  f-strings: the names of \<^verbatim>\<open>d/r\<close> are those of \<open>d\<close> followed by those of
  \<open>r\<close>, and a suffix without separator only extends the last name.
\<close>

lemma split_path_ne: "split_path s \<noteq> []"
  by (induction s) (auto split: list.splits)

lemma split_path_slash: "split_path (a @ CHR ''/'' # b) = split_path a @ split_path b"
  by (induction a) (auto simp: split_path_ne split: list.splits)

lemma split_path_plain: "CHR ''/'' \<notin> set t \<Longrightarrow> split_path t = [t]"
  by (induction t) (auto split: list.splits)

lemma split_path_suffix:
  "CHR ''/'' \<notin> set t \<Longrightarrow>
   split_path (s @ t) = butlast (split_path s) @ [last (split_path s) @ t]"
proof (induction s)
  case Nil
  then show ?case by (simp add: split_path_plain)
next
  case (Cons c s)
  then show ?case
    by (cases "split_path s") (auto simp: split_path_ne split: list.splits)
qed

lemma walk_Cons_Inr:
  "walk e fs cur (c # cs) = Inr q \<longleftrightarrow>
   node_at fs cur = Some Dir \<and> searchable e cur \<and> walk e fs (step cur c) cs = Inr q"
  by (simp split: option.splits node.splits)

lemma walk_append:
  "walk e fs cur (cs @ ds) = (case walk e fs cur cs of Inl err \<Rightarrow> Inl err | Inr q \<Rightarrow> walk e fs q ds)"
  by (induction cs arbitrary: cur) (auto split: option.splits node.splits)

lemma walk_snoc:
  "walk e fs cur (cs @ [c]) = Inr q \<longleftrightarrow>
   (\<exists>par. walk e fs cur cs = Inr par \<and> node_at fs par = Some Dir \<and> searchable e par
      \<and> q = step par c)"
  by (auto simp: walk_append split: sum.splits option.splits node.splits if_splits)

text \<open>
  A walk that succeeds passes through directories only, so it is not disturbed
  when a path that is no directory is given another node.
\<close>

lemma walk_upd:
  "walk e fs cur cs = Inr q \<Longrightarrow> node_at fs p \<noteq> Some Dir \<Longrightarrow> walk e (fs(p := x)) cur cs = Inr q"
proof (induction cs arbitrary: cur)
  case Nil
  then show ?case by simp
next
  case (Cons c cs)
  from Cons.prems have d: "node_at fs cur = Some Dir" and s: "searchable e cur"
    and w: "walk e fs (step cur c) cs = Inr q"
    by (simp_all only: walk_Cons_Inr)
  from d Cons.prems(2) have "cur \<noteq> p" by auto
  with d have n: "node_at (fs(p := x)) cur = Some Dir"
    by (auto simp: node_at_def split: if_splits)
  have "walk e (fs(p := x)) (step cur c) cs = Inr q"
    by (rule Cons.IH [OF w Cons.prems(2)])
  then show ?case using n s
    by (simp only: walk_Cons_Inr)
qed

lemma step_long: "3 \<le> length c \<Longrightarrow> step cur c = cur @ [c]"
  by (auto simp: step_def)

lemma start_of_entry: "start_of e (d @ CHR ''/'' # r) = start_of e (d @ ''/'')"
  by (cases d) (simp_all add: start_of_def)

text \<open>
  The two file names \<^verbatim>\<open><i>.sh\<close> and \<^verbatim>\<open><i>.desktop\<close> are never empty, \<^verbatim>\<open>.\<close>
  or \<^verbatim>\<open>..\<close>: they resolve to two different entries of the same directory.
\<close>

lemma resolve_entry:
  assumes "3 \<le> length sfx" "CHR ''/'' \<notin> set sfx" "CHR 0x00 \<notin> set sfx"
  shows "resolve e fs (d @ CHR ''/'' # i @ sfx) = Inr q \<longleftrightarrow>
         (\<exists>par. located e fs d i par \<and> q = par @ [entry_stem d i @ sfx])"
proof -
  have sp: "split_path (d @ CHR ''/'' # i @ sfx) = entry_parent d i @ [entry_stem d i @ sfx]"
    using split_path_suffix [OF assms(2), of "d @ CHR ''/'' # i"]
    by (simp add: entry_parent_def entry_stem_def)
  have st: "start_of e (d @ CHR ''/'' # i @ sfx) = start_of e (d @ ''/'')"
    by (rule start_of_entry)
  have ln: "3 \<le> length (entry_stem d i @ sfx)" using assms(1) by simp
  show ?thesis
    using assms(3)
    by (auto simp: resolve_def sp st walk_snoc step_long [OF ln] located_def)
qed

lemma located_upd:
  assumes "located e fs d i par" "node_at fs p \<noteq> Some Dir"
  shows "located e (fs(p := x)) d i par"
proof -
  from assms have "par \<noteq> p" by (auto simp: located_def)
  with assms(1) have "node_at (fs(p := x)) par = Some Dir"
    by (auto simp: located_def node_at_def split: if_splits)
  with assms walk_upd [of e fs _ _ par p x] show ?thesis
    by (simp add: located_def)
qed

lemma startup_dir_ne: "startup_dir e sw \<noteq> []"
  by (simp add: startup_dir_def split: option.splits)

lemma present_dir_of_entry:
  assumes "d \<noteq> []" "present e fs (d @ CHR ''/'' # r)"
  shows "present e fs d"
proof -
  have sp: "split_path (d @ CHR ''/'' # r) = split_path d @ split_path r"
    using split_path_slash [of d r] by simp
  have st: "start_of e (d @ CHR ''/'' # r) = start_of e d"
    using assms(1) by (cases d) (simp_all add: start_of_def)
  obtain c cs where r: "split_path r = c # cs"
    using split_path_ne [of r] by (cases "split_path r") auto
  from assms(2) obtain q where q: "walk e fs (start_of e d) (split_path d @ c # cs) = Inr q"
    and nul: "CHR 0x00 \<notin> set d"
    by (auto simp: present_def resolve_def sp st r split: sum.splits if_splits)
  then obtain q0 where "walk e fs (start_of e d) (split_path d) = Inr q0" "node_at fs q0 = Some Dir"
    by (auto simp: walk_append split: sum.splits option.splits node.splits if_splits)
  with nul assms(1) show ?thesis
    by (simp add: present_def resolve_def)
qed

lemma present_launcher_irrelevant:
  assumes "resolve e fs (d @ CHR ''/'' # i @ ''.sh'') = Inr q" "node_at fs q \<noteq> Some Dir"
  shows "present e (fs(q := x)) (d @ CHR ''/'' # i @ ''.desktop'')
         = present e fs (d @ CHR ''/'' # i @ ''.desktop'')"
proof -
  from assms(1) obtain par where par: "located e fs d i par" and q: "q = par @ [entry_stem d i @ ''.sh'']"
    by (auto simp: resolve_entry)
  have par': "located e (fs(q := x)) d i par"
    by (rule located_upd [OF par assms(2)])
  let ?g = "par @ [entry_stem d i @ ''.desktop'']"
  have r1: "resolve e fs (d @ CHR ''/'' # i @ ''.desktop'') = Inr ?g"
    using par by (auto simp: resolve_entry)
  have r2: "resolve e (fs(q := x)) (d @ CHR ''/'' # i @ ''.desktop'') = Inr ?g"
    using par' by (auto simp: resolve_entry)
  have "?g \<noteq> q" by (simp add: q)
  then show ?thesis
    by (simp add: present_def r1 r2 node_at_def)
qed

lemma resolve_upd:
  "resolve e fs p = Inr q \<Longrightarrow> node_at fs x \<noteq> Some Dir \<Longrightarrow> resolve e (fs(x := v)) p = Inr q"
  by (auto simp: resolve_def walk_upd split: if_splits)

section \<open>The example machine, evaluated\<close>

lemma demo_env_simps:
  "home demo_env = Some ''/home/u''" "cwd demo_env = []" "umask demo_env = 18"
  "searchable demo_env p" "writable demo_env p" "owned demo_env p"
  by (simp_all add: demo_env_def)

lemmas demo_defs = demo_env_simps demo_fs_def demo_fs_added_def demo_fs_removed_def

lemma demo_dir: "startup_dir demo_env False = ''/home/u/.config/autostart''"
  by (simp add: startup_dir_def demo_env_simps rstrip_slash_def)

section \<open>The existence check\<close>

text \<open>
  What \<^verbatim>\<open>os.path.exists\<close> answers, against what is on the disk: a path that
  resolves for the process resolves to the same node without the access check,
  and a path that is on the disk either resolves or is denied.
\<close>

lemma walk_unrestricted:
  "walk e fs cur cs = Inr q \<Longrightarrow> walk (unrestricted e) fs cur cs = Inr q"
  by (induction cs arbitrary: cur)
     (auto simp: unrestricted_def split: option.splits node.splits if_splits)

lemma walk_denied:
  "walk (unrestricted e) fs cur cs = Inr q \<Longrightarrow>
   walk e fs cur cs = Inr q \<or> walk e fs cur cs = Inl PermissionError"
  by (induction cs arbitrary: cur)
     (auto simp: unrestricted_def split: option.splits node.splits if_splits)

lemma walk_allowed:
  "(\<And>q. searchable e q) \<Longrightarrow> walk e fs cur cs \<noteq> Inl PermissionError"
  by (induction cs arbitrary: cur) (auto split: option.splits node.splits)

lemma resolve_unrestricted:
  "resolve (unrestricted e) fs p = Inr q \<longleftrightarrow>
   resolve e fs p = Inr q \<or>
   (resolve e fs p = Inl PermissionError \<and> resolve (unrestricted e) fs p = Inr q)"
proof -
  have st: "start_of (unrestricted e) p = start_of e p"
    by (simp add: start_of_def unrestricted_def)
  show ?thesis
    using walk_unrestricted [of e fs "start_of e p" "split_path p" q]
      walk_denied [of e fs "start_of e p" "split_path p" q]
    by (auto simp: resolve_def st)
qed

lemma present_iff_on_disk:
  "present e fs p \<longleftrightarrow> on_disk e fs p \<and> resolve e fs p \<noteq> Inl PermissionError"
proof
  assume "present e fs p"
  then obtain q where q: "resolve e fs p = Inr q" "node_at fs q \<noteq> None"
    by (auto simp: present_def split: sum.splits)
  with resolve_unrestricted [of e fs p q] have "resolve (unrestricted e) fs p = Inr q" by simp
  with q show "on_disk e fs p \<and> resolve e fs p \<noteq> Inl PermissionError"
    by (simp add: on_disk_def present_def)
next
  assume a: "on_disk e fs p \<and> resolve e fs p \<noteq> Inl PermissionError"
  then obtain q where q: "resolve (unrestricted e) fs p = Inr q" "node_at fs q \<noteq> None"
    by (auto simp: on_disk_def present_def split: sum.splits)
  with resolve_unrestricted [of e fs p q] a have "resolve e fs p = Inr q" by simp
  with q show "present e fs p" by (simp add: present_def)
qed

lemma resolve_allowed:
  "(\<And>q. searchable e q) \<Longrightarrow> resolve e fs p \<noteq> Inl PermissionError"
  using walk_allowed [of e fs "start_of e p" "split_path p"]
  by (auto simp: resolve_def)

lemma unrestricted_startup_dir: "startup_dir (unrestricted e) sw = startup_dir e sw"
  by (simp add: startup_dir_def unrestricted_def)

lemma demo_locked_simps:
  "home demo_env_locked = Some ''/home/u''" "cwd demo_env_locked = []"
  "searchable demo_env_locked q \<longleftrightarrow> q \<noteq> [''home'', ''u'', ''.config'', ''autostart'']"
  by (simp_all add: demo_env_locked_def demo_env_def)

lemma demo_locked_dir: "startup_dir demo_env_locked False = ''/home/u/.config/autostart''"
  by (simp add: startup_dir_def demo_locked_simps rstrip_slash_def)

lemma demo_on_disk:
  "on_disk e demo_fs_added ''/home/u/.config/autostart/build.desktop''"
  by (simp add: on_disk_def unrestricted_def present_def resolve_def start_of_def node_at_def
      step_def demo_fs_added_def demo_fs_def)

lemma demo_locked_denied:
  "resolve demo_env_locked demo_fs_added ''/home/u/.config/autostart/build.desktop''
   = Inl PermissionError"
  by (simp add: resolve_def start_of_def node_at_def step_def demo_fs_added_def demo_fs_def
      demo_locked_simps)

text \<open>
  C1, as stated, fails: "true if and only if the file exists" does not hold
  where the process may not look the file up.  \<^verbatim>\<open>os.path.exists\<close> turns the
  \<^verbatim>\<open>EACCES\<close> of \<^verbatim>\<open>stat\<close> into \<^verbatim>\<open>False\<close>: for the user who may not search
  \<^verbatim>\<open>~/.config/autostart\<close> the descriptor \<^verbatim>\<open>build.desktop\<close> is on the disk and
  \<^verbatim>\<open>check("build")\<close> returns false.
\<close>

theorem check_false_when_denied:
  "startup_dir demo_env_locked False @ ''/'' @ ''build'' @ ''.desktop''
     = ''/home/u/.config/autostart/build.desktop''
   \<and> on_disk demo_env_locked demo_fs_added ''/home/u/.config/autostart/build.desktop''
   \<and> check demo_env_locked ''build'' False demo_fs_added = (Inr False, demo_fs_added)"
  by (simp add: demo_locked_dir demo_on_disk check_eq present_def demo_locked_denied)

text \<open>
  C1, amended.  \<^verbatim>\<open>check(i, s)\<close> returns true exactly when the path
  \<^verbatim>\<open><startup-dir-for-s>/<i>.desktop\<close> names a node on the disk and looking it up
  is not denied to the process; where every directory may be searched that is
  exactly when the file exists.  It returns false otherwise: when no
  descriptor exists (an identifier that was never registered), and when
  the startup directory itself does not exist.  The launcher \<^verbatim>\<open><i>.sh\<close> plays
  no role: whatever is put in the place of the launcher file (nothing, or any
  other file), the answer is the same.
\<close>

theorem check_iff_accessible:
  "check e i sw fs =
     (Inr (on_disk e fs (startup_dir e sw @ ''/'' @ i @ ''.desktop'')
           \<and> resolve e fs (startup_dir e sw @ ''/'' @ i @ ''.desktop'') \<noteq> Inl PermissionError), fs)
   \<and> ((\<forall>q. searchable e q) \<longrightarrow>
        check e i sw fs = (Inr (on_disk e fs (startup_dir e sw @ ''/'' @ i @ ''.desktop'')), fs))
   \<and> (\<not> on_disk e fs (startup_dir e sw @ ''/'' @ i @ ''.desktop'')
        \<longrightarrow> check e i sw fs = (Inr False, fs))
   \<and> (\<not> on_disk e fs (startup_dir e sw) \<longrightarrow> check e i sw fs = (Inr False, fs))
   \<and> (\<not> present e fs (startup_dir e sw) \<longrightarrow> check e i sw fs = (Inr False, fs))
   \<and> (\<forall>q x. resolve e fs (startup_dir e sw @ ''/'' @ i @ ''.sh'') = Inr q
              \<and> node_at fs q \<noteq> Some Dir
          \<longrightarrow> fst (check e i sw (fs(q := x))) = fst (check e i sw fs))"
proof -
  let ?P = "startup_dir e sw @ CHR ''/'' # i @ ''.desktop''"
  have c: "check e i sw fs = (Inr (present e fs ?P), fs)" for fs
    using check_eq [of e i sw fs] by simp
  have 1: "check e i sw fs = (Inr (on_disk e fs ?P \<and> resolve e fs ?P \<noteq> Inl PermissionError), fs)"
    by (simp only: c present_iff_on_disk)
  have 2: "check e i sw fs = (Inr (on_disk e fs ?P), fs)" if "\<forall>q. searchable e q"
    using that resolve_allowed [of e fs ?P] by (simp add: 1)
  have 3: "check e i sw fs = (Inr False, fs)" if "\<not> on_disk e fs ?P"
    using that by (simp add: 1)
  have 5: "check e i sw fs = (Inr False, fs)" if "\<not> present e fs (startup_dir e sw)"
  proof -
    from that have "\<not> present e fs ?P"
      using present_dir_of_entry [OF startup_dir_ne, where e1 = e and sw1 = sw and fs = fs
          and r = "i @ ''.desktop''"]
      by blast
    then show ?thesis by (simp add: c)
  qed
  have 4: "check e i sw fs = (Inr False, fs)" if "\<not> on_disk e fs (startup_dir e sw)"
    using that 5 by (simp add: present_iff_on_disk)
  have 6: "fst (check e i sw (fs(q := x))) = fst (check e i sw fs)"
    if "resolve e fs (startup_dir e sw @ ''/'' @ i @ ''.sh'') = Inr q \<and> node_at fs q \<noteq> Some Dir"
    for q x
    using that present_launcher_irrelevant [of e fs "startup_dir e sw" i q x]
    by (simp add: c)
  from 1 2 3 4 5 6 show ?thesis by simp
qed

theorem check_iff_accessible_witness:
  "check demo_env ''build'' False demo_fs_added = (Inr True, demo_fs_added)
   \<and> on_disk demo_env demo_fs_added ''/home/u/.config/autostart/build.desktop''
   \<and> \<not> on_disk demo_env demo_fs ''/home/u/.config/autostart''
   \<and> \<not> on_disk demo_env demo_fs ''/home/u/.config/autostart/build.desktop''
   \<and> check demo_env ''build'' False demo_fs = (Inr False, demo_fs)
   \<and> resolve demo_env demo_fs_added ''/home/u/.config/autostart/build.sh''
       = Inr [''home'', ''u'', ''.config'', ''autostart'', ''build.sh'']
   \<and> fst (check demo_env ''build'' False
         (demo_fs_added([''home'', ''u'', ''.config'', ''autostart'', ''build.sh''] := None)))
       = Inr True
   \<and> resolve demo_env_locked demo_fs_added ''/home/u/.config/autostart/build.desktop''
       = Inl PermissionError
   \<and> check demo_env_locked ''build'' False demo_fs_added = (Inr False, demo_fs_added)"
proof -
  let ?q = "[''home'', ''u'', ''.config'', ''autostart'', ''build.sh'']"
  let ?P = "''/home/u/.config/autostart/build.desktop''"
  have all: "\<forall>q. searchable demo_env q" by (simp add: demo_env_simps)
  have od: "on_disk demo_env demo_fs_added ?P" by (rule demo_on_disk)
  have nd: "\<not> on_disk demo_env demo_fs ''/home/u/.config/autostart''"
    by (simp add: on_disk_def unrestricted_def present_def resolve_def start_of_def node_at_def
        step_def demo_fs_def demo_env_def)
  have nf: "\<not> on_disk demo_env demo_fs ?P"
    by (simp add: on_disk_def unrestricted_def present_def resolve_def start_of_def node_at_def
        step_def demo_fs_def demo_env_def)
  have r: "resolve demo_env demo_fs_added ''/home/u/.config/autostart/build.sh'' = Inr ?q"
    by (simp add: resolve_def start_of_def node_at_def step_def demo_defs)
  have n: "node_at demo_fs_added ?q \<noteq> Some Dir"
    by (simp add: node_at_def demo_defs)
  note T = check_iff_accessible [of demo_env "''build''" False demo_fs_added]
  from T have
    "(\<forall>q. searchable demo_env q) \<longrightarrow> check demo_env ''build'' False demo_fs_added
       = (Inr (on_disk demo_env demo_fs_added
            (startup_dir demo_env False @ ''/'' @ ''build'' @ ''.desktop'')), demo_fs_added)"
    by blast
  with all od have a: "check demo_env ''build'' False demo_fs_added = (Inr True, demo_fs_added)"
    by (simp add: demo_dir)
  from T have
    "resolve demo_env demo_fs_added (startup_dir demo_env False @ ''/'' @ ''build'' @ ''.sh'')
       = Inr ?q \<and> node_at demo_fs_added ?q \<noteq> Some Dir
     \<longrightarrow> fst (check demo_env ''build'' False (demo_fs_added(?q := None)))
         = fst (check demo_env ''build'' False demo_fs_added)"
    by blast
  with r n a have c: "fst (check demo_env ''build'' False (demo_fs_added(?q := None))) = Inr True"
    by (simp add: demo_dir)
  from check_iff_accessible [of demo_env "''build''" False demo_fs]
  have "\<not> on_disk demo_env demo_fs (startup_dir demo_env False)
        \<longrightarrow> check demo_env ''build'' False demo_fs = (Inr False, demo_fs)"
    by blast
  with nd have b: "check demo_env ''build'' False demo_fs = (Inr False, demo_fs)"
    by (simp add: demo_dir)
  from check_iff_accessible [of demo_env_locked "''build''" False demo_fs_added]
  have "check demo_env_locked ''build'' False demo_fs_added =
     (Inr (on_disk demo_env_locked demo_fs_added
             (startup_dir demo_env_locked False @ ''/'' @ ''build'' @ ''.desktop'')
           \<and> resolve demo_env_locked demo_fs_added
               (startup_dir demo_env_locked False @ ''/'' @ ''build'' @ ''.desktop'')
             \<noteq> Inl PermissionError), demo_fs_added)"
    by blast
  then have l: "check demo_env_locked ''build'' False demo_fs_added = (Inr False, demo_fs_added)"
    by (simp add: demo_locked_dir demo_locked_denied)
  from a od nd nf b r c demo_locked_denied l show ?thesis by simp
qed

text \<open>
  C10.  \<^verbatim>\<open>check\<close> is total and read-only: for every identifier string (the
  empty one and those with path separators or a NUL included; the identifier
  is not validated) and every scope flag it raises nothing, returns a boolean
  and leaves the file system as it found it.
\<close>

theorem check_total_readonly:
  "\<exists>b. check e i sw fs = (Inr b, fs)"
  by (simp add: check_eq)

section \<open>Registration\<close>

lemma bind_io_Inr:
  "bind_io m f fs = (Inr y, fs') \<longleftrightarrow> (\<exists>x fs1. m fs = (Inr x, fs1) \<and> f x fs1 = (Inr y, fs'))"
  by (auto simp: bind_io_def split: prod.splits sum.splits)

lemma open_w_Inr:
  assumes "open_w e p fs = (Inr q, fs1)"
  shows "resolve e fs p = Inr q" "node_at fs q \<noteq> Some Dir" "q \<noteq> []"
    "fs1 = fs(q \<mapsto> File [] (mode_kept e fs q))"
  using assms
  by (auto simp: open_w_def node_at_def mode_kept_def
      split: sum.splits option.splits node.splits if_splits)

lemma file_write_fresh:
  "file_write q s (fs(q \<mapsto> File t m)) = (Inr (), fs(q \<mapsto> File (t @ s) m))"
  by (simp add: file_write_def)

lemma os_chmod_file:
  assumes "resolve e fs p = Inr q" "fs q = Some (File t m)" "q \<noteq> []"
  shows "os_chmod e p mode fs =
         (if owned e q then (Inr (), fs(q \<mapsto> File t mode)) else (Inl PermissionError, fs))"
  using assms by (simp add: os_chmod_def node_at_def)

text \<open>
  What a successful \<^verbatim>\<open>add\<close> leaves behind: the file system after
  \<^verbatim>\<open>os.makedirs\<close>, with the launcher and the descriptor written into the
  directory of the entry.
\<close>

lemma add_effect:
  assumes ok: "add e i sl ip sw a fs = (Inr (), fs')"
  shows "\<exists>fsM par.
           makedirs e (startup_dir e sw) fs = (Inr (), fsM) \<and>
           located e fsM (startup_dir e sw) i par \<and>
           node_at fsM (par @ [entry_stem (startup_dir e sw) i @ ''.sh'']) \<noteq> Some Dir \<and>
           node_at fsM (par @ [entry_stem (startup_dir e sw) i @ ''.desktop'']) \<noteq> Some Dir \<and>
           fs' = fsM
             (par @ [entry_stem (startup_dir e sw) i @ ''.sh''] \<mapsto>
                File (launcher_text ip sl a) 493,
              par @ [entry_stem (startup_dir e sw) i @ ''.desktop''] \<mapsto>
                File (desktop_text i (startup_dir e sw @ ''/'' @ i))
                  (mode_kept e fsM (par @ [entry_stem (startup_dir e sw) i @ ''.desktop''])))"
proof -
  let ?d = "startup_dir e sw"
  let ?L = "?d @ CHR ''/'' # i @ ''.sh''"
  let ?D = "?d @ CHR ''/'' # i @ ''.desktop''"
  let ?lt = "launcher_text ip sl a"
  let ?dt = "desktop_text i (?d @ CHR ''/'' # i)"
  from ok obtain fsM f fs1 fs2 fs3 g fs4 where
    mk: "makedirs e ?d fs = (Inr (), fsM)" and
    o1: "open_w e ?L fsM = (Inr f, fs1)" and
    w1: "file_write f ?lt fs1 = (Inr (), fs2)" and
    ch: "os_chmod e ?L 493 fs2 = (Inr (), fs3)" and
    o2: "open_w e ?D fs3 = (Inr g, fs4)" and
    w2: "file_write g ?dt fs4 = (Inr (), fs')"
    by (auto simp: add_def bind_io_Inr startup_folder_eq Let_def)
  note O1 = open_w_Inr [OF o1]
  from O1(1) obtain par where par: "located e fsM ?d i par"
    and f: "f = par @ [entry_stem ?d i @ ''.sh'']"
    by (auto simp: resolve_entry)
  let ?m1 = "mode_kept e fsM f"
  have fs1: "fs1 = fsM(f \<mapsto> File [] ?m1)" by (rule O1(4))
  have fs2: "fs2 = fsM(f \<mapsto> File ?lt ?m1)"
    using w1 by (simp add: fs1 file_write_fresh)
  have par2: "located e fs2 ?d i par"
    unfolding fs2 by (rule located_upd [OF par O1(2)])
  have r2: "resolve e fs2 ?L = Inr f"
    using par2 f by (auto simp: resolve_entry)
  have fs3: "fs3 = fsM(f \<mapsto> File ?lt 493)"
    using ch os_chmod_file [OF r2, of ?lt ?m1 493] O1(3)
    by (auto simp: fs2 split: if_splits)
  have par3: "located e fs3 ?d i par"
    unfolding fs3 by (rule located_upd [OF par O1(2)])
  note O2 = open_w_Inr [OF o2]
  from O2(1) obtain par' where "located e fs3 ?d i par'"
    and "g = par' @ [entry_stem ?d i @ ''.desktop'']"
    by (auto simp: resolve_entry)
  with par3 have g: "g = par @ [entry_stem ?d i @ ''.desktop'']"
    by (simp add: located_def)
  have gf: "g \<noteq> f" by (simp add: g f)
  have ng: "node_at fsM g \<noteq> Some Dir"
    using O2(2) gf O2(3) by (simp add: fs3 node_at_def)
  have mg: "mode_kept e fs3 g = mode_kept e fsM g"
    using gf by (simp add: fs3 mode_kept_def)
  have fs4: "fs4 = fs3(g \<mapsto> File [] (mode_kept e fsM g))"
    using O2(4) by (simp add: mg)
  have "fs' = fs3(g \<mapsto> File ?dt (mode_kept e fsM g))"
    using w2 by (simp add: fs4 file_write_fresh)
  then have "fs' = fsM(f \<mapsto> File ?lt 493, g \<mapsto> File ?dt (mode_kept e fsM g))"
    by (simp add: fs3)
  with mk par O1(2) ng show ?thesis
    unfolding f g by auto
qed

lemma add_post:
  assumes "add e i sl ip sw a fs = (Inr (), fs')"
  shows "\<exists>f g m. resolve e fs' (startup_dir e sw @ CHR ''/'' # i @ ''.sh'') = Inr f \<and>
           resolve e fs' (startup_dir e sw @ CHR ''/'' # i @ ''.desktop'') = Inr g \<and>
           f \<noteq> [] \<and> g \<noteq> [] \<and>
           fs' f = Some (File (launcher_text ip sl a) 493) \<and>
           fs' g = Some (File (desktop_text i (startup_dir e sw @ CHR ''/'' # i)) m)"
proof -
  let ?d = "startup_dir e sw"
  let ?f = "\<lambda>par. par @ [entry_stem ?d i @ ''.sh'']"
  let ?g = "\<lambda>par. par @ [entry_stem ?d i @ ''.desktop'']"
  from add_effect [OF assms] obtain fsM par where
    par: "located e fsM ?d i par" and
    nf: "node_at fsM (?f par) \<noteq> Some Dir" and
    ng: "node_at fsM (?g par) \<noteq> Some Dir" and
    fs': "fs' = fsM(?f par \<mapsto> File (launcher_text ip sl a) 493,
                   ?g par \<mapsto> File (desktop_text i (?d @ ''/'' @ i)) (mode_kept e fsM (?g par)))"
    by blast
  let ?fs1 = "fsM(?f par \<mapsto> File (launcher_text ip sl a) 493)"
  have p1: "located e ?fs1 ?d i par" by (rule located_upd [OF par nf])
  have "node_at ?fs1 (?g par) \<noteq> Some Dir" using ng by (simp add: node_at_def)
  from located_upd [OF p1 this] have p2: "located e fs' ?d i par" by (simp add: fs')
  have "resolve e fs' (?d @ CHR ''/'' # i @ ''.sh'') = Inr (?f par)"
    "resolve e fs' (?d @ CHR ''/'' # i @ ''.desktop'') = Inr (?g par)"
    using p2 by (auto simp: resolve_entry)
  moreover have "fs' (?f par) = Some (File (launcher_text ip sl a) 493)"
    by (simp add: fs')
  moreover have "fs' (?g par) = Some (File (desktop_text i (?d @ CHR ''/'' # i)) (mode_kept e fsM (?g par)))"
    by (simp add: fs')
  ultimately show ?thesis by blast
qed

lemma demo_add:
  "add demo_env ''build'' ''/opt/build.sh'' ''python3'' False ''-v'' demo_fs = (Inr (), demo_fs_added)"
  by (simp add: demo_env_simps demo_fs_def demo_fs_added_def add_def startup_folder_def
      expanduser_def return_io_def bind_io_def makedirs_def start_of_def node_at_def step_def
      rstrip_slash_def open_w_def resolve_def file_write_def os_chmod_def launcher_text_def
      desktop_text_def)

text \<open>
  C2.  Immediately after a successful \<^verbatim>\<open>add(i, path, interp, s, args)\<close>,
  \<^verbatim>\<open>check(i, s)\<close> returns true, for every identifier, script path,
  interpreter, scope and arguments.
\<close>

theorem add_then_check:
  "add e i sl ip sw a fs = (Inr (), fs') \<Longrightarrow> check e i sw fs' = (Inr True, fs')"
  using add_post [of e i sl ip sw a fs fs']
  by (auto simp: check_eq present_def node_at_def)

theorem add_then_check_witness:
  "add demo_env ''build'' ''/opt/build.sh'' ''python3'' False ''-v'' demo_fs = (Inr (), demo_fs_added)
   \<and> check demo_env ''build'' False demo_fs_added = (Inr True, demo_fs_added)"
  using add_then_check [OF demo_add] demo_add by simp

text \<open>
  C4.  After a successful \<^verbatim>\<open>add\<close> the launcher file
  \<^verbatim>\<open><startup-dir>/<i>.sh\<close> holds exactly the shebang line, an empty line and
  the line \<^verbatim>\<open><interpreter> <script_location> <arguments>\<close>, and its permission
  bits are \<^verbatim>\<open>0o755\<close>, that is \<open>7 * 8 * 8 + 5 * 8 + 5\<close>.  For
  \<^verbatim>\<open>add("build", "/opt/build.sh", "python3", False, "-v")\<close> the text is
  \<^verbatim>\<open>#!/bin/bash\n\npython3 /opt/build.sh -v\n\<close>.
\<close>

theorem add_launcher_file:
  "add e i sl ip sw a fs = (Inr (), fs') \<Longrightarrow>
   os_stat e (startup_dir e sw @ ''/'' @ i @ ''.sh'') fs' =
     (Inr (File (''#!/bin/bash\<newline>\<newline>'' @ ip @ '' '' @ sl @ '' '' @ a @ ''\<newline>'')
             (7 * 8 * 8 + 5 * 8 + 5)), fs')"
  using add_post [of e i sl ip sw a fs fs']
  by (auto simp: os_stat_def node_at_def launcher_text_def)

theorem add_launcher_file_witness:
  "add demo_env ''build'' ''/opt/build.sh'' ''python3'' False ''-v'' demo_fs = (Inr (), demo_fs_added)
   \<and> os_stat demo_env ''/home/u/.config/autostart/build.sh'' demo_fs_added =
       (Inr (File ''#!/bin/bash\<newline>\<newline>python3 /opt/build.sh -v\<newline>'' 493), demo_fs_added)"
  using add_launcher_file [OF demo_add] demo_add
  by (simp add: demo_dir)

text \<open>
  C5.  After a successful \<^verbatim>\<open>add\<close> the descriptor file
  \<^verbatim>\<open><startup-dir>/<i>.desktop\<close> is the Desktop Entry block whose \<^verbatim>\<open>Name\<close> line
  carries the identifier and whose \<^verbatim>\<open>Exec\<close> line carries the path of the
  launcher \<^verbatim>\<open><startup-dir>/<i>.sh\<close>.  For the call of the example it has the
  lines \<^verbatim>\<open>Name=build\<close> and \<^verbatim>\<open>Exec=/home/u/.config/autostart/build.sh\<close>.
\<close>

theorem add_descriptor_file:
  "add e i sl ip sw a fs = (Inr (), fs') \<Longrightarrow>
   \<exists>m. os_stat e (startup_dir e sw @ ''/'' @ i @ ''.desktop'') fs' =
     (Inr (File (''[Desktop Entry]\<newline>Type=Application\<newline>''
                 @ ''Name='' @ i @ ''\<newline>''
                 @ ''Exec='' @ startup_dir e sw @ ''/'' @ i @ ''.sh'' @ ''\<newline>'') m), fs')"
  using add_post [of e i sl ip sw a fs fs']
  by (auto simp: os_stat_def node_at_def desktop_text_def)

theorem add_descriptor_file_witness:
  "add demo_env ''build'' ''/opt/build.sh'' ''python3'' False ''-v'' demo_fs = (Inr (), demo_fs_added)
   \<and> (\<exists>m. os_stat demo_env ''/home/u/.config/autostart/build.desktop'' demo_fs_added =
       (Inr (File (''[Desktop Entry]\<newline>Type=Application\<newline>''
                   @ ''Name=build'' @ ''\<newline>''
                   @ ''Exec=/home/u/.config/autostart/build.sh'' @ ''\<newline>'') m), demo_fs_added))"
  using add_descriptor_file [OF demo_add] demo_add
  by (simp add: demo_dir)

section \<open>Removal\<close>



lemma remove_eq:
  "remove e i sw fs =
     remove_list e [startup_dir e sw @ CHR ''/'' # i @ ''.sh'',
                    startup_dir e sw @ CHR ''/'' # i @ ''.desktop''] fs"
  by (simp add: remove_def bind_io_def startup_folder_eq)

text \<open>One round of the loop of \<^verbatim>\<open>remove_list\<close>.\<close>

lemma remove_list_cons:
  "remove_list e (p # ps) fs =
     (if present e fs p
      then (case os_remove e p fs of
              (Inl err, fs1) \<Rightarrow> (Inl err, fs1)
            | (Inr u, fs1) \<Rightarrow> remove_list e ps fs1)
      else remove_list e ps fs)"
  by (simp add: bind_io_def path_exists_eq)

lemma remove_list_nil: "remove_list e [] fs = (Inr True, fs)"
  by (simp add: return_io_def)






text \<open>
  C6.  \<^verbatim>\<open>remove(i, s)\<close> for an identifier that was never registered (neither
  \<^verbatim>\<open><i>.sh\<close> nor \<^verbatim>\<open><i>.desktop\<close> exists) raises nothing, returns true and
  leaves the file system as it is.
\<close>

theorem remove_unregistered:
  assumes "\<not> present e fs (startup_dir e sw @ ''/'' @ i @ ''.sh'')"
    and "\<not> present e fs (startup_dir e sw @ ''/'' @ i @ ''.desktop'')"
  shows "remove e i sw fs = (Inr True, fs)"
  using assms by (simp add: remove_eq remove_list_cons remove_list_nil del: remove_list.simps)

theorem remove_unregistered_witness:
  "\<not> present demo_env demo_fs ''/home/u/.config/autostart/build.sh''
   \<and> \<not> present demo_env demo_fs ''/home/u/.config/autostart/build.desktop''
   \<and> remove demo_env ''build'' False demo_fs = (Inr True, demo_fs)"
proof -
  have a: "\<not> present demo_env demo_fs (startup_dir demo_env False @ ''/'' @ ''build'' @ ''.sh'')"
    by (simp add: demo_dir present_def resolve_def start_of_def node_at_def step_def demo_defs)
  have b: "\<not> present demo_env demo_fs (startup_dir demo_env False @ ''/'' @ ''build'' @ ''.desktop'')"
    by (simp add: demo_dir present_def resolve_def start_of_def node_at_def step_def demo_defs)
  from remove_unregistered [OF a b] a b show ?thesis by (simp add: demo_dir)
qed

section \<open>Creating the directory\<close>

text \<open>
  \<^verbatim>\<open>os.makedirs\<close> changes a path only by creating a directory where nothing
  was; afterwards the directory exists; and where it existed before, nothing
  is changed.
\<close>

lemma mkdirs_Cons_Inr:
  "mkdirs_from e cur (c # cs) fs = (Inr (), fs') \<longleftrightarrow>
   searchable e cur \<and>
   (node_at fs cur = Some Dir \<and> mkdirs_from e (step cur c) cs fs = (Inr (), fs') \<or>
    node_at fs cur = None \<and> writable e (butlast cur) \<and>
    mkdirs_from e (step cur c) cs (fs(cur \<mapsto> Dir)) = (Inr (), fs'))"
  by (simp split: option.splits node.splits)

lemma mkdirs_Nil_Inr:
  "mkdirs_from e cur [] fs = (Inr (), fs') \<longleftrightarrow>
   (node_at fs cur = Some Dir \<and> fs' = fs \<or>
    node_at fs cur = None \<and> writable e (butlast cur) \<and> fs' = fs(cur \<mapsto> Dir))"
  by (auto split: option.splits node.splits)

lemma node_at_None: "node_at fs p = None \<longleftrightarrow> p \<noteq> [] \<and> fs p = None"
  by (simp add: node_at_def)

lemma mkdirs_trail:
  "mkdirs_from e cur cs fs = (Inr (), fs') \<Longrightarrow> fs' p \<noteq> fs p \<Longrightarrow>
   fs p = None \<and> fs' p = Some Dir \<and> (\<exists>k\<le>length cs. p = foldl step cur (take k cs))"
proof (induction cs arbitrary: cur fs p)
  case Nil
  from Nil(1) have "node_at fs cur = Some Dir \<and> fs' = fs \<or>
    node_at fs cur = None \<and> writable e (butlast cur) \<and> fs' = fs(cur \<mapsto> Dir)"
    by (simp only: mkdirs_Nil_Inr)
  with Nil(2) show ?case
    by (auto simp: node_at_None split: if_splits)
next
  case (Cons c cs)
  from Cons.prems(1) consider
    (there) "node_at fs cur = Some Dir" "mkdirs_from e (step cur c) cs fs = (Inr (), fs')"
  | (made) "node_at fs cur = None" "mkdirs_from e (step cur c) cs (fs(cur \<mapsto> Dir)) = (Inr (), fs')"
    by (auto simp only: mkdirs_Cons_Inr)
  then show ?case
  proof cases
    case there
    from Cons.IH [OF there(2) Cons.prems(2)] obtain k where
      k: "fs p = None" "fs' p = Some Dir" "k \<le> length cs" "p = foldl step (step cur c) (take k cs)"
      by blast
    from k(3,4) have "Suc k \<le> length (c # cs)" "p = foldl step cur (take (Suc k) (c # cs))"
      by simp_all
    with k(1,2) show ?thesis by blast
  next
    case made
    then have cur: "cur \<noteq> []" "fs cur = None" by (simp_all add: node_at_None)
    note IH = Cons.IH [OF made(2)]
    show ?thesis
    proof (cases "p = cur")
      case True
      have "fs' cur = Some Dir"
      proof (rule ccontr)
        assume "fs' cur \<noteq> Some Dir"
        then have "fs' cur \<noteq> (fs(cur \<mapsto> Dir)) cur" by simp
        from IH [OF this] show False by simp
      qed
      moreover have "0 \<le> length (c # cs)" "cur = foldl step cur (take 0 (c # cs))" by simp_all
      ultimately show ?thesis using True cur by blast
    next
      case False
      with Cons.prems(2) have "fs' p \<noteq> (fs(cur \<mapsto> Dir)) p" by simp
      from IH [OF this] False obtain k where
        k: "fs p = None" "fs' p = Some Dir" "k \<le> length cs"
          "p = foldl step (step cur c) (take k cs)"
        by auto
      from k(3,4) have "Suc k \<le> length (c # cs)" "p = foldl step cur (take (Suc k) (c # cs))"
        by simp_all
      with k(1,2) show ?thesis by blast
    qed
  qed
qed

lemma mkdirs_changes:
  "mkdirs_from e cur cs fs = (Inr (), fs') \<Longrightarrow> fs' p \<noteq> fs p \<Longrightarrow>
   fs p = None \<and> fs' p = Some Dir"
  by (drule (1) mkdirs_trail) simp

lemma mkdirs_keeps_dirs:
  assumes "mkdirs_from e cur cs fs = (Inr (), fs')" "node_at fs p = Some Dir"
  shows "node_at fs' p = Some Dir"
proof (cases "p = []")
  case True
  then show ?thesis by (simp add: node_at_def)
next
  case False
  with assms(2) have "fs p = Some Dir" by (simp add: node_at_def)
  with mkdirs_changes [OF assms(1), of p] have "fs' p = Some Dir" by force
  with False show ?thesis by (simp add: node_at_def)
qed

lemma mkdirs_post:
  "mkdirs_from e cur cs fs = (Inr (), fs') \<Longrightarrow>
   \<exists>q. walk e fs' cur cs = Inr q \<and> node_at fs' q = Some Dir"
proof (induction cs arbitrary: cur fs)
  case Nil
  from Nil have "node_at fs cur = Some Dir \<and> fs' = fs \<or>
    node_at fs cur = None \<and> writable e (butlast cur) \<and> fs' = fs(cur \<mapsto> Dir)"
    by (simp only: mkdirs_Nil_Inr)
  then show ?case
    by (auto simp: node_at_def)
next
  case (Cons c cs)
  from Cons.prems have s: "searchable e cur" by (simp only: mkdirs_Cons_Inr)
  have "\<exists>fs0. node_at fs0 cur = Some Dir \<and> mkdirs_from e (step cur c) cs fs0 = (Inr (), fs')"
  proof -
    from Cons.prems consider
      "node_at fs cur = Some Dir" "mkdirs_from e (step cur c) cs fs = (Inr (), fs')"
    | "node_at fs cur = None" "mkdirs_from e (step cur c) cs (fs(cur \<mapsto> Dir)) = (Inr (), fs')"
      by (auto simp only: mkdirs_Cons_Inr)
    then show ?thesis
    proof cases
      case 1
      then show ?thesis by blast
    next
      case 2
      have "node_at (fs(cur \<mapsto> Dir)) cur = Some Dir" by (simp add: node_at_def)
      with 2(2) show ?thesis by blast
    qed
  qed
  then obtain fs0 where d0: "node_at fs0 cur = Some Dir"
    and rec: "mkdirs_from e (step cur c) cs fs0 = (Inr (), fs')"
    by blast
  from mkdirs_keeps_dirs [OF rec d0] have d: "node_at fs' cur = Some Dir" .
  from Cons.IH [OF rec] obtain q where "walk e fs' (step cur c) cs = Inr q" "node_at fs' q = Some Dir"
    by blast
  with d s show ?case by (simp only: walk_Cons_Inr) blast
qed

lemma mkdirs_skip:
  "walk e fs cur cs = Inr q \<Longrightarrow> mkdirs_from e cur (cs @ ds) fs = mkdirs_from e q ds fs"
  by (induction cs arbitrary: cur) (auto split: option.splits node.splits if_splits)

lemma mkdirs_noop:
  assumes "walk e fs cur cs = Inr q" "node_at fs q = Some Dir"
  shows "mkdirs_from e cur cs fs = (Inr (), fs)"
  using mkdirs_skip [OF assms(1), of "[]"] assms(2) by simp

lemma makedirs_changes:
  "makedirs e d fs = (Inr (), fs') \<Longrightarrow> fs' p \<noteq> fs p \<Longrightarrow> fs p = None \<and> fs' p = Some Dir"
  by (auto simp: makedirs_def dest: mkdirs_changes split: if_splits)

lemma makedirs_post:
  "makedirs e d fs = (Inr (), fs') \<Longrightarrow> \<exists>q. resolve e fs' d = Inr q \<and> node_at fs' q = Some Dir"
  by (auto simp: makedirs_def resolve_def dest: mkdirs_post split: if_splits)

lemma makedirs_noop:
  "resolve e fs d = Inr q \<Longrightarrow> node_at fs q = Some Dir \<Longrightarrow> makedirs e d fs = (Inr (), fs)"
  by (auto simp: makedirs_def resolve_def mkdirs_noop split: if_splits)

section \<open>Registering twice\<close>

lemma add_shape:
  assumes "add e i sl ip sw a fs = (Inr (), fs')"
  obtains fsM par where
    "makedirs e (startup_dir e sw) fs = (Inr (), fsM)"
    "located e fsM (startup_dir e sw) i par"
    "located e fs' (startup_dir e sw) i par"
    "node_at fsM (par @ [entry_stem (startup_dir e sw) i @ ''.sh'']) \<noteq> Some Dir"
    "node_at fsM (par @ [entry_stem (startup_dir e sw) i @ ''.desktop'']) \<noteq> Some Dir"
    "fs' = fsM
       (par @ [entry_stem (startup_dir e sw) i @ ''.sh''] \<mapsto> File (launcher_text ip sl a) 493,
        par @ [entry_stem (startup_dir e sw) i @ ''.desktop''] \<mapsto>
          File (desktop_text i (startup_dir e sw @ ''/'' @ i))
            (mode_kept e fsM (par @ [entry_stem (startup_dir e sw) i @ ''.desktop''])))"
proof -
  let ?d = "startup_dir e sw"
  let ?f = "\<lambda>par. par @ [entry_stem ?d i @ ''.sh'']"
  let ?g = "\<lambda>par. par @ [entry_stem ?d i @ ''.desktop'']"
  from add_effect [OF assms] obtain fsM par where
    mk: "makedirs e ?d fs = (Inr (), fsM)" and
    par: "located e fsM ?d i par" and
    nf: "node_at fsM (?f par) \<noteq> Some Dir" and
    ng: "node_at fsM (?g par) \<noteq> Some Dir" and
    fs': "fs' = fsM(?f par \<mapsto> File (launcher_text ip sl a) 493,
                   ?g par \<mapsto> File (desktop_text i (?d @ ''/'' @ i)) (mode_kept e fsM (?g par)))"
    by blast
  let ?fs1 = "fsM(?f par \<mapsto> File (launcher_text ip sl a) 493)"
  have p1: "located e ?fs1 ?d i par" by (rule located_upd [OF par nf])
  have "node_at ?fs1 (?g par) \<noteq> Some Dir" using ng by (simp add: node_at_def)
  from located_upd [OF p1 this] have p2: "located e fs' ?d i par" by (simp add: fs')
  show ?thesis by (rule that [OF mk par p2 nf ng fs'])
qed

lemmas add_unfold = add_def startup_folder_def
      expanduser_def return_io_def bind_io_def makedirs_def start_of_def node_at_def step_def
      rstrip_slash_def open_w_def resolve_def file_write_def os_chmod_def launcher_text_def
      desktop_text_def

lemma demo_add_again:
  "add demo_env ''build'' ''/opt/other.sh'' ''bash'' False ''-q'' demo_fs_added = (Inr (), demo_fs_again)"
  by (simp add: demo_env_simps demo_fs_def demo_fs_added_def demo_fs_again_def add_unfold)

lemma demo_add_sys:
  "add demo_env ''build'' ''/opt/build.sh'' ''python3'' True ''-v'' demo_fs_added = (Inr (), demo_fs_both)"
  by (simp add: demo_env_simps demo_fs_def demo_fs_added_def demo_fs_both_def add_unfold)

lemma demo_sys_dir: "startup_dir demo_env True = ''/etc/init.d''"
  by (simp add: startup_dir_def)

lemmas demo_eval = resolve_def start_of_def node_at_def step_def demo_env_simps demo_fs_def
  demo_fs_added_def

text \<open>
  C7.  \<^verbatim>\<open>add\<close> overwrites: when it is called twice with the same identifier and
  scope, the launcher holds the text of the second call (mode \<^verbatim>\<open>0o755\<close>) and the
  descriptor its Desktop Entry block; the second call changes no path but these
  two and creates none (the set of existing paths is the same before and after
  it); and compared with the file system before the first call, the only files
  that were written are these two: every other path that differs is a directory
  that was missing and has been created.
\<close>

theorem add_twice_overwrites:
  assumes first: "add e i sl1 ip1 sw a1 fs = (Inr (), fs1)"
    and second: "add e i sl2 ip2 sw a2 fs1 = (Inr (), fs2)"
  shows "\<exists>f g m.
     resolve e fs2 (startup_dir e sw @ ''/'' @ i @ ''.sh'') = Inr f \<and>
     resolve e fs2 (startup_dir e sw @ ''/'' @ i @ ''.desktop'') = Inr g \<and>
     fs2 f = Some (File (launcher_text ip2 sl2 a2) 493) \<and>
     fs2 g = Some (File (desktop_text i (startup_dir e sw @ ''/'' @ i)) m) \<and>
     (\<forall>p. p \<noteq> f \<and> p \<noteq> g \<longrightarrow> fs2 p = fs1 p) \<and>
     dom fs2 = dom fs1 \<and>
     (\<forall>p. fs2 p \<noteq> fs p \<longrightarrow> p = f \<or> p = g \<or> (fs p = None \<and> fs2 p = Some Dir))"
proof -
  let ?d = "startup_dir e sw"
  let ?s = "entry_stem ?d i"
  from first obtain fsM par where
    mk1: "makedirs e ?d fs = (Inr (), fsM)" and
    par1: "located e fs1 ?d i par" and
    nf: "node_at fsM (par @ [?s @ ''.sh'']) \<noteq> Some Dir" and
    ng: "node_at fsM (par @ [?s @ ''.desktop'']) \<noteq> Some Dir" and
    fs1: "fs1 = fsM
       (par @ [?s @ ''.sh''] \<mapsto> File (launcher_text ip1 sl1 a1) 493,
        par @ [?s @ ''.desktop''] \<mapsto>
          File (desktop_text i (?d @ ''/'' @ i)) (mode_kept e fsM (par @ [?s @ ''.desktop''])))"
    by (rule add_shape)
  let ?f = "par @ [?s @ ''.sh'']"
  let ?g = "par @ [?s @ ''.desktop'']"
  let ?m = "mode_kept e fsM ?g"
  have fg: "?f \<noteq> ?g" by simp
  \<comment> \<open>the directory exists after the first call, so the second creates nothing\<close>
  from makedirs_post [OF mk1] obtain q where
    q: "resolve e fsM ?d = Inr q" "node_at fsM q = Some Dir" by blast
  let ?fsa = "fsM(?f \<mapsto> File (launcher_text ip1 sl1 a1) 493)"
  have ra: "resolve e ?fsa ?d = Inr q" by (rule resolve_upd [OF q(1) nf])
  have nga: "node_at ?fsa ?g \<noteq> Some Dir" using ng by (simp add: node_at_def)
  from resolve_upd [OF ra nga] have r1: "resolve e fs1 ?d = Inr q" by (simp add: fs1)
  have "q \<noteq> ?f" "q \<noteq> ?g" using q(2) nf ng by auto
  with q(2) have "node_at fs1 q = Some Dir"
    by (auto simp: fs1 node_at_def split: if_splits)
  from makedirs_noop [OF r1 this] have noop: "makedirs e ?d fs1 = (Inr (), fs1)" .
  from second obtain fsM2 par2 where
    mk2: "makedirs e ?d fs1 = (Inr (), fsM2)" and
    par2: "located e fsM2 ?d i par2" and
    par2': "located e fs2 ?d i par2" and
    fs2: "fs2 = fsM2
       (par2 @ [?s @ ''.sh''] \<mapsto> File (launcher_text ip2 sl2 a2) 493,
        par2 @ [?s @ ''.desktop''] \<mapsto>
          File (desktop_text i (?d @ ''/'' @ i)) (mode_kept e fsM2 (par2 @ [?s @ ''.desktop''])))"
    by (rule add_shape)
  from mk2 noop have M2: "fsM2 = fs1" by simp
  with par2 par1 have P2: "par2 = par" by (simp add: located_def)
  have mk: "mode_kept e fs1 ?g = ?m" by (simp add: fs1 mode_kept_def)
  have fs2': "fs2 = fs1(?f \<mapsto> File (launcher_text ip2 sl2 a2) 493,
                        ?g \<mapsto> File (desktop_text i (?d @ ''/'' @ i)) ?m)"
    using fs2 by (simp add: M2 P2 mk)
  have rf: "resolve e fs2 (?d @ CHR ''/'' # i @ ''.sh'') = Inr ?f"
    and rg: "resolve e fs2 (?d @ CHR ''/'' # i @ ''.desktop'') = Inr ?g"
    using par2' by (auto simp: resolve_entry P2)
  have vf: "fs2 ?f = Some (File (launcher_text ip2 sl2 a2) 493)"
    by (simp add: fs2')
  have vg: "fs2 ?g = Some (File (desktop_text i (?d @ ''/'' @ i)) ?m)"
    by (simp add: fs2')
  have frame: "\<forall>p. p \<noteq> ?f \<and> p \<noteq> ?g \<longrightarrow> fs2 p = fs1 p"
    by (simp add: fs2')
  have d1: "dom fs1 = insert ?f (insert ?g (dom fsM))" by (auto simp: fs1)
  have d2: "dom fs2 = insert ?f (insert ?g (dom fs1))" by (auto simp: fs2')
  have doms: "dom fs2 = dom fs1" using d1 d2 by auto
  have orig: "\<forall>p. fs2 p \<noteq> fs p \<longrightarrow> p = ?f \<or> p = ?g \<or> (fs p = None \<and> fs2 p = Some Dir)"
  proof (intro allI impI)
    fix p assume ch: "fs2 p \<noteq> fs p"
    show "p = ?f \<or> p = ?g \<or> (fs p = None \<and> fs2 p = Some Dir)"
    proof (cases "p = ?f \<or> p = ?g")
      case True
      then show ?thesis by blast
    next
      case False
      then have "fs2 p = fsM p" by (simp add: fs2' fs1)
      with ch makedirs_changes [OF mk1, of p] show ?thesis by simp
    qed
  qed
  from rf rg vf vg frame doms orig show ?thesis
    by (intro exI [of _ ?f] exI [of _ ?g] exI [of _ ?m]) simp
qed

theorem add_twice_overwrites_witness:
  "add demo_env ''build'' ''/opt/build.sh'' ''python3'' False ''-v'' demo_fs = (Inr (), demo_fs_added)
   \<and> add demo_env ''build'' ''/opt/other.sh'' ''bash'' False ''-q'' demo_fs_added = (Inr (), demo_fs_again)
   \<and> demo_fs_again [''home'', ''u'', ''.config'', ''autostart'', ''build.sh'']
       = Some (File ''#!/bin/bash\<newline>\<newline>bash /opt/other.sh -q\<newline>'' 493)
   \<and> dom demo_fs_again = dom demo_fs_added
   \<and> demo_fs_again [''home'', ''u'', ''.config'', ''autostart'', ''build.sh.bak'']
       = demo_fs_added [''home'', ''u'', ''.config'', ''autostart'', ''build.sh.bak'']
   \<and> demo_fs [''home'', ''u'', ''.config''] = None
   \<and> demo_fs_again [''home'', ''u'', ''.config''] = Some Dir"
proof -
  let ?c = "[''home'', ''u'', ''.config'']"
  let ?f = "[''home'', ''u'', ''.config'', ''autostart'', ''build.sh'']"
  let ?g = "[''home'', ''u'', ''.config'', ''autostart'', ''build.desktop'']"
  let ?b = "[''home'', ''u'', ''.config'', ''autostart'', ''build.sh.bak'']"
  from add_twice_overwrites [OF demo_add demo_add_again] obtain f g where
    f: "resolve demo_env demo_fs_again (startup_dir demo_env False @ ''/'' @ ''build'' @ ''.sh'') = Inr f"
    and g: "resolve demo_env demo_fs_again (startup_dir demo_env False @ ''/'' @ ''build'' @ ''.desktop'') = Inr g"
    and v: "demo_fs_again f = Some (File (launcher_text ''bash'' ''/opt/other.sh'' ''-q'') 493)"
    and frame: "\<forall>p. p \<noteq> f \<and> p \<noteq> g \<longrightarrow> demo_fs_again p = demo_fs_added p"
    and doms: "dom demo_fs_again = dom demo_fs_added"
    and orig: "\<forall>p. demo_fs_again p \<noteq> demo_fs p \<longrightarrow>
                 p = f \<or> p = g \<or> (demo_fs p = None \<and> demo_fs_again p = Some Dir)"
    by blast
  have "resolve demo_env demo_fs_again ''/home/u/.config/autostart/build.sh'' = Inr ?f"
    by (simp add: demo_eval demo_fs_again_def)
  with f have f': "f = ?f" by (simp add: demo_dir)
  have "resolve demo_env demo_fs_again ''/home/u/.config/autostart/build.desktop'' = Inr ?g"
    by (simp add: demo_eval demo_fs_again_def)
  with g have g': "g = ?g" by (simp add: demo_dir)
  from v f' have 1: "demo_fs_again ?f = Some (File ''#!/bin/bash\<newline>\<newline>bash /opt/other.sh -q\<newline>'' 493)"
    by (simp add: launcher_text_def)
  from frame f' g' have 2: "demo_fs_again ?b = demo_fs_added ?b" by simp
  have "demo_fs_again ?c \<noteq> demo_fs ?c"
    by (simp add: demo_fs_again_def demo_fs_def)
  with orig f' g' have 3: "demo_fs ?c = None \<and> demo_fs_again ?c = Some Dir"
    by auto
  from demo_add demo_add_again 1 2 3 doms show ?thesis by simp
qed

section \<open>What a registration touches\<close>

text \<open>
  Resolution is lexical where it succeeds, and without a \<^verbatim>\<open>..\<close> name every
  directory passed on the way is an ancestor of the one reached.
\<close>

lemma walk_canonical: "walk e fs cur cs = Inr q \<Longrightarrow> q = foldl step cur cs"
  by (induction cs arbitrary: cur) (auto split: option.splits node.splits if_splits)

lemma resolve_canonical: "resolve e fs p = Inr q \<Longrightarrow> q = canonical e p"
  by (auto simp: resolve_def canonical_def dest: walk_canonical split: if_splits)

lemma prefix_step: "c \<noteq> ''..'' \<Longrightarrow> prefix cur (step cur c)"
  by (simp add: step_def)

lemma prefix_foldl_step: "''..'' \<notin> set cs \<Longrightarrow> prefix cur (foldl step cur cs)"
proof (induction cs arbitrary: cur)
  case Nil
  then show ?case by simp
next
  case (Cons c cs)
  from Cons.prems have "c \<noteq> ''..''" "''..'' \<notin> set cs" by auto
  with Cons.IH have "prefix cur (step cur c)" "prefix (step cur c) (foldl step (step cur c) cs)"
    by (simp_all add: prefix_step)
  then show ?case by (auto intro: prefix_order.trans)
qed

lemma prefix_foldl_take:
  assumes "''..'' \<notin> set cs"
  shows "prefix (foldl step cur (take k cs)) (foldl step cur cs)"
proof -
  have "foldl step cur cs = foldl step (foldl step cur (take k cs)) (drop k cs)"
    by (simp flip: foldl_append)
  moreover have "''..'' \<notin> set (drop k cs)"
    using assms by (auto dest: in_set_dropD)
  ultimately show ?thesis by (simp add: prefix_foldl_step)
qed

lemma makedirs_trail:
  assumes "makedirs e d fs = (Inr (), fs')" "fs' p \<noteq> fs p"
  shows "fs p = None \<and> fs' p = Some Dir \<and>
         (\<exists>k. p = foldl step (start_of e d) (take k (split_path d)))"
proof -
  from assms(1) have "mkdirs_from e (start_of e d) (split_path d) fs = (Inr (), fs')"
    by (simp add: makedirs_def split: if_splits)
  from mkdirs_trail [OF this assms(2)] show ?thesis by blast
qed

lemma makedirs_ancestors:
  assumes "makedirs e d fs = (Inr (), fs')" "fs' p \<noteq> fs p" "''..'' \<notin> set (split_path d)"
  shows "fs p = None \<and> fs' p = Some Dir \<and> prefix p (canonical e d)"
  using makedirs_trail [OF assms(1,2)] prefix_foldl_take [OF assms(3)]
  by (auto simp: canonical_def)

lemma startup_dir_user: "startup_dir e False = home_base e @ ''/.config/autostart''"
  by (simp add: startup_dir_def home_base_def split: option.splits)

lemma split_user_dir:
  "split_path (home_base e @ ''/.config/autostart'')
   = split_path (home_base e) @ [''.config'', ''autostart'']"
  using split_path_slash [of "home_base e" "''.config/autostart''"] by simp

lemma canonical_system: "canonical e (startup_dir e True) = [''etc'', ''init.d'']"
  by (simp add: canonical_def startup_dir_def start_of_def step_def)

lemma canonical_user:
  "\<exists>X. canonical e (startup_dir e False) = X @ [''.config'', ''autostart'']"
  by (simp add: canonical_def startup_dir_user split_user_dir step_def)

lemma user_not_above_system:
  "\<not> prefix (canonical e (startup_dir e False)) (canonical e (startup_dir e True))"
proof
  assume "prefix (canonical e (startup_dir e False)) (canonical e (startup_dir e True))"
  then have "set (canonical e (startup_dir e False)) \<subseteq> set (canonical e (startup_dir e True))"
    by (rule set_mono_prefix)
  moreover from canonical_user [of e] have "''.config'' \<in> set (canonical e (startup_dir e False))"
    by auto
  ultimately show False by (auto simp: canonical_system)
qed

lemma entry_parent_split:
  "entry_parent d i = split_path d @ butlast (split_path i)"
  using split_path_ne [of i]
  by (simp add: entry_parent_def split_path_slash butlast_append)

lemma located_under:
  assumes "located e fs d i par" "d \<noteq> []" "''..'' \<notin> set (split_path (d @ CHR ''/'' # i))"
  shows "prefix (canonical e d) par"
proof -
  have st: "start_of e (d @ ''/'') = start_of e d"
    using assms(2) by (cases d) (simp_all add: start_of_def)
  from assms(1) have "par = foldl step (start_of e d) (split_path d @ butlast (split_path i))"
    by (auto simp: located_def entry_parent_split st dest: walk_canonical)
  then have par: "par = foldl step (canonical e d) (butlast (split_path i))"
    by (simp add: canonical_def)
  from assms(3) have "''..'' \<notin> set (butlast (split_path i))"
    by (auto simp: split_path_slash dest: in_set_butlastD)
  then show ?thesis unfolding par by (rule prefix_foldl_step)
qed

lemma demo_nested_simps:
  "home demo_env_nested = Some ''/etc/init.d''" "cwd demo_env_nested = []"
  "umask demo_env_nested = 18"
  "searchable demo_env_nested p" "writable demo_env_nested p" "owned demo_env_nested p"
  by (simp_all add: demo_env_nested_def demo_env_def)

lemma demo_canonical:
  "canonical demo_env (startup_dir demo_env False) = [''home'', ''u'', ''.config'', ''autostart'']"
  "canonical demo_env (startup_dir demo_env True) = [''etc'', ''init.d'']"
  by (simp_all add: canonical_system)
     (simp add: canonical_def demo_dir start_of_def step_def)

text \<open>
  C8, as stated, fails, in three ways.  A directory on the way may be missing:
  on the example machine \<^verbatim>\<open>~/.config\<close> does not exist, the per-user \<^verbatim>\<open>add\<close>
  creates it, and \<^verbatim>\<open>/home/u/.config\<close> does not lie under
  \<^verbatim>\<open>/home/u/.config/autostart\<close>.  The identifier is interpolated as it is: for
  \<^verbatim>\<open>../x\<close> the launcher is written to \<^verbatim>\<open>/home/u/.config/x.sh\<close>, outside the
  directory.  And the per-user directory is wherever \<^verbatim>\<open>$HOME\<close> says: for a
  user whose home is \<^verbatim>\<open>/etc/init.d\<close> the per-user \<^verbatim>\<open>add\<close> creates
  \<^verbatim>\<open>/etc/init.d/.config\<close>, inside the system-wide directory.
\<close>

theorem add_leaves_directory:
  "add demo_env ''build'' ''/opt/build.sh'' ''python3'' False ''-v'' demo_fs = (Inr (), demo_fs_added)
   \<and> resolve demo_env demo_fs_added (startup_dir demo_env False)
       = Inr [''home'', ''u'', ''.config'', ''autostart'']
   \<and> demo_fs [''home'', ''u'', ''.config''] = None
   \<and> demo_fs_added [''home'', ''u'', ''.config''] = Some Dir
   \<and> \<not> prefix [''home'', ''u'', ''.config'', ''autostart''] [''home'', ''u'', ''.config'']
   \<and> fst (add demo_env ''../x'' ''/opt/build.sh'' ''python3'' False ''-v'' demo_fs_added) = Inr ()
   \<and> demo_fs_added [''home'', ''u'', ''.config'', ''x.sh''] = None
   \<and> snd (add demo_env ''../x'' ''/opt/build.sh'' ''python3'' False ''-v'' demo_fs_added)
         [''home'', ''u'', ''.config'', ''x.sh'']
       = Some (File ''#!/bin/bash\<newline>\<newline>python3 /opt/build.sh -v\<newline>'' 493)
   \<and> \<not> prefix [''home'', ''u'', ''.config'', ''autostart''] [''home'', ''u'', ''.config'', ''x.sh'']
   \<and> fst (add demo_env_nested ''build'' ''/opt/build.sh'' ''python3'' False ''-v'' demo_fs) = Inr ()
   \<and> canonical demo_env_nested (startup_dir demo_env_nested True) = [''etc'', ''init.d'']
   \<and> demo_fs [''etc'', ''init.d'', ''.config''] = None
   \<and> snd (add demo_env_nested ''build'' ''/opt/build.sh'' ''python3'' False ''-v'' demo_fs)
         [''etc'', ''init.d'', ''.config'']
       = Some Dir
   \<and> prefix [''etc'', ''init.d''] [''etc'', ''init.d'', ''.config'']"
proof -
  have 1: "resolve demo_env demo_fs_added (startup_dir demo_env False)
       = Inr [''home'', ''u'', ''.config'', ''autostart'']"
    "demo_fs [''home'', ''u'', ''.config''] = None"
    "demo_fs_added [''home'', ''u'', ''.config''] = Some Dir"
    "demo_fs_added [''home'', ''u'', ''.config'', ''x.sh''] = None"
    "demo_fs [''etc'', ''init.d'', ''.config''] = None"
    by (simp_all add: demo_dir demo_eval)
  have 2: "fst (add demo_env ''../x'' ''/opt/build.sh'' ''python3'' False ''-v'' demo_fs_added) = Inr ()"
    "snd (add demo_env ''../x'' ''/opt/build.sh'' ''python3'' False ''-v'' demo_fs_added)
         [''home'', ''u'', ''.config'', ''x.sh'']
       = Some (File ''#!/bin/bash\<newline>\<newline>python3 /opt/build.sh -v\<newline>'' 493)"
    by (simp_all add: demo_env_simps demo_fs_def demo_fs_added_def add_unfold)
  have 3: "fst (add demo_env_nested ''build'' ''/opt/build.sh'' ''python3'' False ''-v'' demo_fs) = Inr ()"
    "snd (add demo_env_nested ''build'' ''/opt/build.sh'' ''python3'' False ''-v'' demo_fs)
         [''etc'', ''init.d'', ''.config'']
       = Some Dir"
    by (simp_all add: demo_nested_simps demo_fs_def add_unfold)
  from demo_add 1 2 3 show ?thesis by (simp add: canonical_system)
qed

text \<open>
  C8, amended.  When the path \<^verbatim>\<open><startup-dir>/<i>\<close> has no \<^verbatim>\<open>..\<close> name, every
  path a successful \<^verbatim>\<open>add\<close> creates or writes is one of the two files
  \<^verbatim>\<open><i>.sh\<close> and \<^verbatim>\<open><i>.desktop\<close>, which lie under the startup directory
  resolved for its scope flag, or a directory that was missing and is that
  directory or one of its ancestors.  Unless the per-user directory lies inside
  the system-wide directory, nothing at or under the directory of the other
  scope changes, whether that directory exists or not.
\<close>

theorem add_frame:
  assumes ok: "add e i sl ip sw a fs = (Inr (), fs')"
    and plain: "''..'' \<notin> set (split_path (startup_dir e sw @ ''/'' @ i))"
  shows "\<exists>f g.
      resolve e fs' (startup_dir e sw) = Inr (canonical e (startup_dir e sw)) \<and>
      resolve e fs' (startup_dir e sw @ ''/'' @ i @ ''.sh'') = Inr f \<and>
      resolve e fs' (startup_dir e sw @ ''/'' @ i @ ''.desktop'') = Inr g \<and>
      prefix (canonical e (startup_dir e sw)) f \<and>
      prefix (canonical e (startup_dir e sw)) g \<and>
      (\<forall>p. fs' p \<noteq> fs p \<longrightarrow>
           p = f \<or> p = g \<or>
           (fs p = None \<and> fs' p = Some Dir \<and> prefix p (canonical e (startup_dir e sw)))) \<and>
      (\<not> prefix (canonical e (startup_dir e True)) (canonical e (startup_dir e False)) \<longrightarrow>
         (\<forall>p. prefix (canonical e (startup_dir e (\<not> sw))) p \<longrightarrow> fs' p = fs p))"
proof -
  let ?d = "startup_dir e sw"
  let ?D = "canonical e ?d"
  let ?O = "canonical e (startup_dir e (\<not> sw))"
  from plain have plain': "''..'' \<notin> set (split_path (?d @ CHR ''/'' # i))" by simp
  then have plain_d: "''..'' \<notin> set (split_path ?d)" by (simp add: split_path_slash)
  from ok obtain fsM par where
    mk: "makedirs e ?d fs = (Inr (), fsM)" and
    locM: "located e fsM ?d i par" and
    loc': "located e fs' ?d i par" and
    nf: "node_at fsM (par @ [entry_stem ?d i @ ''.sh'']) \<noteq> Some Dir" and
    ng: "node_at fsM (par @ [entry_stem ?d i @ ''.desktop'']) \<noteq> Some Dir" and
    fs': "fs' = fsM
       (par @ [entry_stem ?d i @ ''.sh''] \<mapsto> File (launcher_text ip sl a) 493,
        par @ [entry_stem ?d i @ ''.desktop''] \<mapsto>
          File (desktop_text i (?d @ ''/'' @ i))
            (mode_kept e fsM (par @ [entry_stem ?d i @ ''.desktop''])))"
    by (rule add_shape)
  let ?f = "par @ [entry_stem ?d i @ ''.sh'']"
  let ?g = "par @ [entry_stem ?d i @ ''.desktop'']"
  have other: "fs' p = fsM p" if "p \<noteq> ?f" "p \<noteq> ?g" for p
    using that by (simp add: fs')
  \<comment> \<open>the directory\<close>
  from makedirs_post [OF mk] obtain q where
    q: "resolve e fsM ?d = Inr q" "node_at fsM q = Some Dir" by blast
  from resolve_canonical [OF q(1)] have qD: "q = ?D" .
  let ?fsa = "fsM(?f \<mapsto> File (launcher_text ip sl a) 493)"
  have ra: "resolve e ?fsa ?d = Inr q" by (rule resolve_upd [OF q(1) nf])
  have nga: "node_at ?fsa ?g \<noteq> Some Dir" using ng by (simp add: node_at_def)
  from resolve_upd [OF ra nga] have rD: "resolve e fs' ?d = Inr ?D" by (simp add: fs' qD)
  \<comment> \<open>the two files\<close>
  have rf: "resolve e fs' (?d @ CHR ''/'' # i @ ''.sh'') = Inr ?f"
    and rg: "resolve e fs' (?d @ CHR ''/'' # i @ ''.desktop'') = Inr ?g"
    using loc' by (auto simp: resolve_entry)
  from located_under [OF loc' startup_dir_ne plain'] have under: "prefix ?D par" .
  then have pf: "prefix ?D ?f" and pg: "prefix ?D ?g" by simp_all
  \<comment> \<open>everything that changes\<close>
  have changed: "p = ?f \<or> p = ?g \<or> (fs p = None \<and> fs' p = Some Dir \<and> prefix p ?D)"
    if ch: "fs' p \<noteq> fs p" for p
  proof (cases "p = ?f \<or> p = ?g")
    case True
    then show ?thesis by blast
  next
    case False
    then have eq: "fs' p = fsM p" using other by blast
    with ch have "fsM p \<noteq> fs p" by simp
    from makedirs_ancestors [OF mk this plain_d] eq show ?thesis by simp
  qed
  \<comment> \<open>the directory of the other scope\<close>
  have apart: "fs' p = fs p"
    if sep: "\<not> prefix (canonical e (startup_dir e True)) (canonical e (startup_dir e False))"
      and po: "prefix ?O p" for p
  proof (rule ccontr)
    assume "fs' p \<noteq> fs p"
    from changed [OF this] pf pg have "prefix ?D p \<or> prefix p ?D" by auto
    then have "prefix ?O ?D \<or> prefix ?D ?O"
    proof
      assume "prefix ?D p"
      with po show ?thesis by (rule prefix_same_cases)
    next
      assume "prefix p ?D"
      with po have "prefix ?O ?D" by (rule prefix_order.trans)
      then show ?thesis ..
    qed
    with sep user_not_above_system [of e] show False by (cases sw) auto
  qed
  from rD rf rg pf pg changed apart show ?thesis
    by (intro exI [of _ ?f] exI [of _ ?g]) simp
qed

theorem add_frame_witness:
  "add demo_env ''build'' ''/opt/build.sh'' ''python3'' False ''-v'' demo_fs = (Inr (), demo_fs_added)
   \<and> add demo_env ''build'' ''/opt/build.sh'' ''python3'' True ''-v'' demo_fs_added = (Inr (), demo_fs_both)
   \<and> ''..'' \<notin> set (split_path ''/home/u/.config/autostart/build'')
   \<and> ''..'' \<notin> set (split_path ''/etc/init.d/build'')
   \<and> canonical demo_env (startup_dir demo_env False) = [''home'', ''u'', ''.config'', ''autostart'']
   \<and> canonical demo_env (startup_dir demo_env True) = [''etc'', ''init.d'']
   \<and> \<not> prefix [''etc'', ''init.d''] [''home'', ''u'', ''.config'', ''autostart'']
   \<and> demo_fs [''home'', ''u'', ''.config''] = None
   \<and> demo_fs_added [''home'', ''u'', ''.config''] = Some Dir
   \<and> prefix [''home'', ''u'', ''.config''] [''home'', ''u'', ''.config'', ''autostart'']
   \<and> demo_fs_added [''etc'', ''init.d''] = demo_fs [''etc'', ''init.d'']
   \<and> demo_fs_both [''home'', ''u'', ''.config'', ''autostart'', ''build.sh'']
       = demo_fs_added [''home'', ''u'', ''.config'', ''autostart'', ''build.sh'']"
proof -
  let ?c = "[''home'', ''u'', ''.config'']"
  let ?U = "[''home'', ''u'', ''.config'', ''autostart'']"
  have p1: "''..'' \<notin> set (split_path (startup_dir demo_env False @ ''/'' @ ''build''))"
    by (simp add: demo_dir)
  have p2: "''..'' \<notin> set (split_path (startup_dir demo_env True @ ''/'' @ ''build''))"
    by (simp add: demo_sys_dir)
  have sep: "\<not> prefix [''etc'', ''init.d''] ?U" by simp
  from add_frame [OF demo_add p1] obtain f g where
    f: "resolve demo_env demo_fs_added (startup_dir demo_env False @ ''/'' @ ''build'' @ ''.sh'') = Inr f"
    and g: "resolve demo_env demo_fs_added (startup_dir demo_env False @ ''/'' @ ''build'' @ ''.desktop'') = Inr g"
    and ch: "\<forall>p. demo_fs_added p \<noteq> demo_fs p \<longrightarrow> p = f \<or> p = g \<or>
        (demo_fs p = None \<and> demo_fs_added p = Some Dir
         \<and> prefix p (canonical demo_env (startup_dir demo_env False)))"
    and ap: "\<not> prefix (canonical demo_env (startup_dir demo_env True))
                 (canonical demo_env (startup_dir demo_env False)) \<longrightarrow>
         (\<forall>p. prefix (canonical demo_env (startup_dir demo_env (\<not> False))) p
            \<longrightarrow> demo_fs_added p = demo_fs p)"
    by blast
  have "resolve demo_env demo_fs_added ''/home/u/.config/autostart/build.sh''
        = Inr (?U @ [''build.sh''])"
    "resolve demo_env demo_fs_added ''/home/u/.config/autostart/build.desktop''
        = Inr (?U @ [''build.desktop''])"
    by (simp_all add: demo_eval)
  with f g have fg: "f = ?U @ [''build.sh'']" "g = ?U @ [''build.desktop'']"
    by (simp_all add: demo_dir)
  have "demo_fs_added ?c \<noteq> demo_fs ?c" by (simp add: demo_fs_added_def demo_fs_def)
  with ch fg have 1: "demo_fs ?c = None \<and> demo_fs_added ?c = Some Dir \<and> prefix ?c ?U"
    by (auto simp: demo_canonical)
  from ap sep have 2: "demo_fs_added [''etc'', ''init.d''] = demo_fs [''etc'', ''init.d'']"
    by (simp add: demo_canonical)
  from add_frame [OF demo_add_sys p2]
  have "\<not> prefix (canonical demo_env (startup_dir demo_env True))
                 (canonical demo_env (startup_dir demo_env False)) \<longrightarrow>
         (\<forall>p. prefix (canonical demo_env (startup_dir demo_env (\<not> True))) p
            \<longrightarrow> demo_fs_both p = demo_fs_added p)"
    by blast
  with sep have 3: "demo_fs_both (?U @ [''build.sh'']) = demo_fs_added (?U @ [''build.sh''])"
    by (simp add: demo_canonical)
  from demo_add demo_add_sys 1 2 3 show ?thesis
    by (simp add: demo_canonical)
qed

end
